theory Spec2Isabelle
  imports Main "HOL-Library.Sublist"
begin

section \<open>Trace tree builder (treeBuilder.ts)\<close>

subsection \<open>Values of the host language\<close>

text \<open>A thrown JavaScript exception: \<open>Error(msg)\<close> as the builder throws it, or the
  \<open>TypeError\<close> the runtime raises when a property of \<open>undefined\<close> is read or when
  \<open>JSON.stringify\<close> meets a value it cannot serialise.\<close>

datatype Exception = Error string | TypeError string

text \<open>One segment of a response path: \<open>string | number\<close>.\<close>

datatype PathKey = FieldKey string | IndexKey nat

text \<open>The type \<open>ResponsePath | undefined\<close> of graphql-js: a reverse-linked chain
  \<open>{ prev, key }\<close>, \<open>NoPath\<close> standing for \<open>undefined\<close>.\<close>

datatype ResponsePath = NoPath | Path ResponsePath PathKey

record Location =
  line :: nat
  column :: nat

record TraceError =
  message :: string
  location :: "Location list"
  json :: string

text \<open>A \<open>Trace.Node\<close>. Nodes are shared mutable objects, so a node is held by a reference
  (an address into the heap) and \<open>child\<close> is a list of references.\<close>

record Node =
  fieldName :: "string option"
  index :: "nat option"
  type :: string
  parentType :: string
  startTime :: nat
  endTime :: nat
  child :: "nat list"
  error :: "TraceError list"

definition emptyNode :: Node where
  "emptyNode = \<lparr>fieldName = None, index = None, type = [], parentType = [],
     startTime = 0, endTime = 0, child = [], error = []\<rparr>"

record GraphQLResolveInfo =
  info_path :: ResponsePath
  info_returnType :: string
  info_parentType :: string

text \<open>The builder object together with the heap its nodes live in; \<open>nextNode\<close> is the
  address the next \<open>new Trace.Node()\<close> receives.\<close>

record EngineReportingTreeBuilder =
  startHrTime :: "(nat \<times> nat) option"
  stopped :: bool
  rootNode :: nat
  nodes :: "string \<rightharpoonup> nat"
  heap :: "nat \<Rightarrow> Node"
  nextNode :: nat

subsection \<open>Path strings\<close>

definition digit_char :: "nat \<Rightarrow> char" where
  "digit_char d = ''0123456789'' ! d"

fun string_of_nat :: "nat \<Rightarrow> string" where
  "string_of_nat n =
     (if n < 10 then [digit_char n] else string_of_nat (n div 10) @ [digit_char (n mod 10)])"

declare string_of_nat.simps [simp del]

text \<open>What \<open>Array.prototype.join\<close> does to one element: a string as it is, a number in
  decimal.\<close>

fun keyString :: "PathKey \<Rightarrow> string" where
  "keyString (FieldKey s) = s"
| "keyString (IndexKey n) = string_of_nat n"

fun join :: "string \<Rightarrow> string list \<Rightarrow> string" where
  "join sep [] = []"
| "join sep [x] = x"
| "join sep (x # y # ys) = x @ sep @ join sep (y # ys)"

definition joinKeys :: "PathKey list \<Rightarrow> string" where
  "joinKeys ks = join ''.'' (map keyString ks)"

text \<open>\<open>responsePathAsArray\<close> of graphql-js: the keys of the chain, root first.\<close>

fun responsePathAsArray :: "ResponsePath \<Rightarrow> PathKey list" where
  "responsePathAsArray NoPath = []"
| "responsePathAsArray (Path p k) = responsePathAsArray p @ [k]"

fun responsePathAsString :: "ResponsePath \<Rightarrow> string" where
  "responsePathAsString NoPath = []"
| "responsePathAsString (Path p k) = joinKeys (responsePathAsArray (Path p k))"

definition rootResponsePath :: string where
  "rootResponsePath = responsePathAsString NoPath"

subsection \<open>The builder\<close>

definition durationHrTimeToNanos :: "nat \<times> nat \<Rightarrow> nat" where
  "durationHrTimeToNanos hrtime = fst hrtime * 1000000000 + snd hrtime"

text \<open>\<open>new Trace.Node()\<close>: a fresh address holding an empty node.\<close>

definition new_Node :: "EngineReportingTreeBuilder \<Rightarrow> nat \<times> EngineReportingTreeBuilder" where
  "new_Node b = (nextNode b, b\<lparr>heap := (heap b)(nextNode b := emptyNode), nextNode := Suc (nextNode b)\<rparr>)"

text \<open>A write through a node reference.\<close>

definition updateNode :: "nat \<Rightarrow> (Node \<Rightarrow> Node) \<Rightarrow> EngineReportingTreeBuilder \<Rightarrow> EngineReportingTreeBuilder" where
  "updateNode a f b = b\<lparr>heap := (heap b)(a := f (heap b a))\<rparr>"

text \<open>The field initialisers of the class: the root node is allocated first and registered
  under the root path.\<close>

definition new_EngineReportingTreeBuilder :: EngineReportingTreeBuilder where
  "new_EngineReportingTreeBuilder =
     \<lparr>startHrTime = None, stopped = False, rootNode = 0,
      nodes = [rootResponsePath \<mapsto> 0], heap = (\<lambda>_. emptyNode), nextNode = 1\<rparr>"

text \<open>\<open>startTiming\<close>; \<open>now\<close> is what \<open>process.hrtime()\<close> returns.\<close>

definition startTiming :: "nat \<times> nat \<Rightarrow> EngineReportingTreeBuilder \<Rightarrow> (Exception + unit) \<times> EngineReportingTreeBuilder" where
  "startTiming now b =
     (if startHrTime b \<noteq> None then (Inl (Error ''startTiming called twice!''), b)
      else if stopped b then (Inl (Error ''startTiming called after stopTiming!''), b)
      else (Inr (), b\<lparr>startHrTime := Some now\<rparr>))"

fun newNode :: "ResponsePath \<Rightarrow> EngineReportingTreeBuilder \<Rightarrow> (Exception + nat) \<times> EngineReportingTreeBuilder"
and ensureParentNode :: "ResponsePath \<Rightarrow> EngineReportingTreeBuilder \<Rightarrow> (Exception + nat) \<times> EngineReportingTreeBuilder"
where
  "newNode NoPath b =
     (Inl (TypeError ''Cannot read property key of undefined''), snd (new_Node b))"
| "newNode (Path p k) b =
     (let (node, b1) = new_Node b;
          b2 = (case k of
                  IndexKey i \<Rightarrow> updateNode node (\<lambda>n. n\<lparr>index := Some i\<rparr>) b1
                | FieldKey s \<Rightarrow> updateNode node (\<lambda>n. n\<lparr>fieldName := Some s\<rparr>) b1);
          b3 = b2\<lparr>nodes := (nodes b2)(responsePathAsString (Path p k) \<mapsto> node)\<rparr>
      in case ensureParentNode (Path p k) b3 of
           (Inl e, b4) \<Rightarrow> (Inl e, b4)
         | (Inr parentNode, b4) \<Rightarrow>
             (Inr node, updateNode parentNode (\<lambda>n. n\<lparr>child := child n @ [node]\<rparr>) b4))"
| "ensureParentNode NoPath b =
     (Inl (TypeError ''Cannot read property prev of undefined''), b)"
| "ensureParentNode (Path p k) b =
     (case nodes b (responsePathAsString p) of
        Some parentNode \<Rightarrow> (Inr parentNode, b)
      | None \<Rightarrow> newNode p b)"

text \<open>\<open>willResolveField\<close>; \<open>hr\<close> is what \<open>process.hrtime(this.startHrTime)\<close> returns.
  The closure it returns captures the node, so the model returns the node's reference and
  \<open>endHandler\<close> is the closure's body.\<close>

definition willResolveField :: "GraphQLResolveInfo \<Rightarrow> nat \<times> nat \<Rightarrow> EngineReportingTreeBuilder \<Rightarrow> (Exception + nat) \<times> EngineReportingTreeBuilder" where
  "willResolveField info hr b =
     (if startHrTime b = None then (Inl (Error ''willResolveField called before startTiming!''), b)
      else if stopped b then (Inl (Error ''willResolveField called after stopTiming!''), b)
      else case newNode (info_path info) b of
             (Inl e, b1) \<Rightarrow> (Inl e, b1)
           | (Inr node, b1) \<Rightarrow>
               (Inr node,
                updateNode node (\<lambda>n. n\<lparr>type := info_returnType info,
                                       parentType := info_parentType info,
                                       startTime := durationHrTimeToNanos hr\<rparr>) b1))"

definition endHandler :: "nat \<Rightarrow> nat \<times> nat \<Rightarrow> EngineReportingTreeBuilder \<Rightarrow> EngineReportingTreeBuilder" where
  "endHandler node hr b = updateNode node (\<lambda>n. n\<lparr>endTime := durationHrTimeToNanos hr\<rparr>) b"

text \<open>\<open>addError\<close>. An array is truthy even when empty, and so is every node, so \<open>if (path)\<close>
  tests for \<open>undefined\<close> and \<open>if (specificNode)\<close> for a missing map entry.\<close>

definition addError :: "PathKey list option \<Rightarrow> TraceError \<Rightarrow> EngineReportingTreeBuilder \<Rightarrow> (Exception + unit) \<times> EngineReportingTreeBuilder" where
  "addError path err b =
     (if startHrTime b = None then (Inl (Error ''addError called before startTiming!''), b)
      else if stopped b then (Inl (Error ''addError called after stopTiming!''), b)
      else
        let node = (case path of
                      None \<Rightarrow> rootNode b
                    | Some ks \<Rightarrow> (case nodes b (joinKeys ks) of
                                   Some specificNode \<Rightarrow> specificNode
                                 | None \<Rightarrow> rootNode b))
        in (Inr (), updateNode node (\<lambda>n. n\<lparr>error := error n @ [err]\<rparr>) b))"

text \<open>\<open>stopTiming\<close> returns \<open>{ durationNs, rootNode }\<close>.\<close>

definition stopTiming :: "nat \<times> nat \<Rightarrow> EngineReportingTreeBuilder \<Rightarrow> (Exception + nat \<times> nat) \<times> EngineReportingTreeBuilder" where
  "stopTiming hr b =
     (if startHrTime b = None then (Inl (Error ''stopTiming called before startTiming!''), b)
      else if stopped b then (Inl (Error ''stopTiming called twice!''), b)
      else (Inr (durationHrTimeToNanos hr, rootNode b), b\<lparr>stopped := True\<rparr>))"

section \<open>Request tracer (the per-request extension)\<close>

subsection \<open>JSON values and \<open>JSON.stringify\<close>\<close>

text \<open>The values a request carries as variables or error extensions. \<open>JCircular\<close> stands for
  an object that contains a reference cycle, on which \<open>JSON.stringify\<close> throws a
  \<open>TypeError\<close>; numbers are restricted to integers.\<close>

datatype JSValue =
    JNull
  | JBool bool
  | JNumber int
  | JString string
  | JArray "JSValue list"
  | JObject "(string \<times> JSValue) list"
  | JCircular

definition string_of_int :: "int \<Rightarrow> string" where
  "string_of_int i = (if i < 0 then CHR ''-'' # string_of_nat (nat (- i)) else string_of_nat (nat i))"

definition hex_char :: "nat \<Rightarrow> char" where
  "hex_char d = ''0123456789abcdef'' ! d"

definition escapeChar :: "char \<Rightarrow> string" where
  "escapeChar c =
     (let n = (of_char c :: nat) in
      if n = 34 then [CHR 0x5C, CHR 0x22]
      else if n = 92 then [CHR 0x5C, CHR 0x5C]
      else if n = 8 then [CHR 0x5C, CHR ''b'']
      else if n = 12 then [CHR 0x5C, CHR ''f'']
      else if n = 10 then [CHR 0x5C, CHR ''n'']
      else if n = 13 then [CHR 0x5C, CHR ''r'']
      else if n = 9 then [CHR 0x5C, CHR ''t'']
      else if n < 32 then [CHR 0x5C, CHR ''u'', CHR ''0'', CHR ''0'', hex_char (n div 16), hex_char (n mod 16)]
      else [c])"

text \<open>\<open>JSON.stringify\<close> of a string: the quoted, escaped text; it never throws.\<close>

definition quoteJSONString :: "string \<Rightarrow> string" where
  "quoteJSONString s = CHR 0x22 # concat (map escapeChar s) @ [CHR 0x22]"

text \<open>\<open>JSON.stringify\<close>; \<open>None\<close> is the thrown \<open>TypeError\<close>.\<close>

fun JSON_stringify :: "JSValue \<Rightarrow> string option" where
  "JSON_stringify JNull = Some ''null''"
| "JSON_stringify (JBool b) = Some (if b then ''true'' else ''false'')"
| "JSON_stringify (JNumber i) = Some (string_of_int i)"
| "JSON_stringify (JString s) = Some (quoteJSONString s)"
| "JSON_stringify (JArray xs) =
     (case those (map JSON_stringify xs) of
        None \<Rightarrow> None
      | Some ts \<Rightarrow> Some (''['' @ join '','' ts @ '']''))"
| "JSON_stringify (JObject kvs) =
     (case those (map (\<lambda>(k, v). map_option (\<lambda>t. quoteJSONString k @ '':'' @ t) (JSON_stringify v)) kvs) of
        None \<Rightarrow> None
      | Some ts \<Rightarrow> Some (''{'' @ join '','' ts @ ''}''))"
| "JSON_stringify JCircular = None"

subsection \<open>Strings\<close>

text \<open>\<open>String.prototype.toLowerCase\<close> on the ASCII letters, which is what the names of HTTP
  headers are made of.\<close>

definition lowerChar :: "char \<Rightarrow> char" where
  "lowerChar c =
     (case map_of (zip ''ABCDEFGHIJKLMNOPQRSTUVWXYZ'' ''abcdefghijklmnopqrstuvwxyz'') c of
        Some l \<Rightarrow> l
      | None \<Rightarrow> c)"

definition toLowerCase :: "string \<Rightarrow> string" where
  "toLowerCase s = map lowerChar s"

subsection \<open>Errors of the query engine\<close>

text \<open>A \<open>GraphQLError\<close> of graphql-js. This module never looks inside the AST nodes, the
  source or the original error, so their types are parameters.\<close>

record ('n, 's, 'o) GraphQLError =
  err_message :: string
  err_locations :: "(nat \<times> nat) list option"
  err_path :: "PathKey list option"
  err_nodes :: 'n
  err_source :: 's
  err_positions :: "nat list option"
  err_originalError :: 'o
  err_extensions :: "JSValue option"

text \<open>\<open>GraphQLErrorOrMaskedErrorObject\<close>: a \<open>GraphQLError\<close>, or the object literal
  \<open>{ message }\<close> of the \<open>maskErrorDetails\<close> option.\<close>

datatype ('n, 's, 'o) GraphQLErrorOrMaskedErrorObject =
    MaskedErrorObject string
  | IsGraphQLError "('n, 's, 'o) GraphQLError"

fun message_of :: "('n, 's, 'o) GraphQLErrorOrMaskedErrorObject \<Rightarrow> string" where
  "message_of (MaskedErrorObject m) = m"
| "message_of (IsGraphQLError e) = err_message e"

fun path_of :: "('n, 's, 'o) GraphQLErrorOrMaskedErrorObject \<Rightarrow> PathKey list option" where
  "path_of (MaskedErrorObject m) = None"
| "path_of (IsGraphQLError e) = err_path e"

fun locations_of :: "('n, 's, 'o) GraphQLErrorOrMaskedErrorObject \<Rightarrow> (nat \<times> nat) list option" where
  "locations_of (MaskedErrorObject m) = None"
| "locations_of (IsGraphQLError e) = err_locations e"

text \<open>What the user's \<open>rewriteError\<close> function does with the copy it receives: it throws, or
  it returns \<open>null\<close>, a \<open>GraphQLError\<close>, or anything else (\<open>undefined\<close>, a plain object, a
  string).\<close>

datatype ('n, 's, 'o) RewriteOutcome =
    Throws Exception
  | ReturnsNull
  | ReturnsGraphQLError "('n, 's, 'o) GraphQLError"
  | ReturnsOther

subsection \<open>Options, request and trace\<close>

text \<open>\<open>privateHeaders\<close> and \<open>privateVariables\<close>: \<open>Array<String> | boolean\<close>, or not set.\<close>

datatype PrivateOption = NotSet | Flag bool | Names "string list"

record ('n, 's, 'o) EngineReportingOptions =
  privateHeaders :: PrivateOption
  privateVariables :: PrivateOption
  maskErrorDetails :: bool
  rewriteError :: "(('n, 's, 'o) GraphQLError \<Rightarrow> ('n, 's, 'o) RewriteOutcome) option"

record Timestamp =
  seconds :: nat
  nanos :: nat

record HTTP =
  http_method :: nat
  requestHeaders :: "string \<rightharpoonup> string list"

record Details =
  variablesJson :: "string \<rightharpoonup> string"

record Trace =
  trace_startTime :: "Timestamp option"
  trace_endTime :: "Timestamp option"
  durationNs :: nat
  root :: "nat option"
  http :: "HTTP option"
  details :: "Details option"
  clientVersion :: string
  clientReferenceId :: string
  clientName :: string
  fullQueryCacheHit :: bool
  forbiddenOperation :: bool
  registeredOperation :: bool
  persistedQueryHit :: bool
  persistedQueryRegister :: bool

definition new_Trace :: Trace where
  "new_Trace = \<lparr>trace_startTime = None, trace_endTime = None, durationNs = 0, root = None,
     http = None, details = None, clientVersion = [], clientReferenceId = [], clientName = [],
     fullQueryCacheHit = False, forbiddenOperation = False, registeredOperation = False,
     persistedQueryHit = False, persistedQueryRegister = False\<rparr>"

text \<open>The metrics object of the request pipeline; each signal is an optional boolean.\<close>

record Metrics =
  metrics_responseCacheHit :: "bool option"
  metrics_forbiddenOperation :: "bool option"
  metrics_registeredOperation :: "bool option"
  metrics_persistedQueryHit :: "bool option"
  metrics_persistedQueryRegister :: "bool option"

record Request =
  request_method :: string
  request_headers :: "(string \<times> string) list"

record ClientInfo =
  info_clientName :: "string option"
  info_clientVersion :: "string option"
  info_clientReferenceId :: "string option"

text \<open>The argument of \<open>requestDidStart\<close>. The variables object is the list of its entries,
  in the order of \<open>Object.keys\<close>.\<close>

record 'd RequestDidStartArgs =
  arg_request :: Request
  arg_queryString :: "string option"
  arg_parsedQuery :: "'d option"
  arg_variables :: "(string \<times> JSValue) list option"
  arg_metrics :: Metrics
  arg_queryHash :: string

record 'd EngineReportingExtension =
  trace :: Trace
  treeBuilder :: EngineReportingTreeBuilder
  explicitOperationName :: "string option"
  queryString :: "string option"
  documentAST :: "'d option"

definition new_EngineReportingExtension :: "'d EngineReportingExtension" where
  "new_EngineReportingExtension =
     \<lparr>trace = new_Trace, treeBuilder = new_EngineReportingTreeBuilder,
      explicitOperationName = None, queryString = None, documentAST = None\<rparr>"

record 'd AddTraceArgs =
  add_operationName :: string
  add_queryHash :: string
  add_documentAST :: "'d option"
  add_queryString :: string
  add_trace :: Trace

subsection \<open>Request start and end\<close>

definition dateToTimestamp :: "nat \<Rightarrow> Timestamp" where
  "dateToTimestamp totalMillis =
     (let millis = totalMillis mod 1000
      in \<lparr>seconds = (totalMillis - millis) div 1000, nanos = millis * 1000000\<rparr>)"

text \<open>The truthiness of an optional boolean.\<close>

definition truthy :: "bool option \<Rightarrow> bool" where
  "truthy x = (x = Some True)"

text \<open>The condition of the first \<open>if\<close> in the header loop.\<close>

definition isPrivateHeader :: "('n, 's, 'o) EngineReportingOptions \<Rightarrow> string \<Rightarrow> bool" where
  "isPrivateHeader opts key =
     (case privateHeaders opts of
        Names hs \<Rightarrow> list_ex (\<lambda>privateHeader. toLowerCase privateHeader = toLowerCase key) hs
      | _ \<Rightarrow> False)"

text \<open>The loop \<open>for (const [key, value] of o.request.headers)\<close> over the record
  \<open>requestHeaders\<close>.\<close>

fun headersLoop :: "('n, 's, 'o) EngineReportingOptions \<Rightarrow> (string \<times> string) list \<Rightarrow> (string \<rightharpoonup> string list) \<Rightarrow> (string \<rightharpoonup> string list)" where
  "headersLoop opts [] hs = hs"
| "headersLoop opts ((key, value) # rest) hs =
     (if isPrivateHeader opts key then headersLoop opts rest hs
      else if key = ''authorization'' \<or> key = ''cookie'' \<or> key = ''set-cookie''
        then headersLoop opts rest hs
      else headersLoop opts rest (hs(key \<mapsto> [value])))"

definition isPrivateVariable :: "('n, 's, 'o) EngineReportingOptions \<Rightarrow> string \<Rightarrow> bool" where
  "isPrivateVariable opts name =
     (case privateVariables opts of
        Names vs \<Rightarrow> name \<in> set vs
      | _ \<Rightarrow> False)"

text \<open>The body of \<open>Object.keys(o.variables).forEach\<close> over the record \<open>variablesJson\<close>.\<close>

fun variablesLoop :: "('n, 's, 'o) EngineReportingOptions \<Rightarrow> (string \<times> JSValue) list \<Rightarrow> (string \<rightharpoonup> string) \<Rightarrow> (string \<rightharpoonup> string)" where
  "variablesLoop opts [] vj = vj"
| "variablesLoop opts ((name, v) # rest) vj =
     (if isPrivateVariable opts name then variablesLoop opts rest (vj(name \<mapsto> []))
      else case JSON_stringify v of
             Some t \<Rightarrow> variablesLoop opts rest (vj(name \<mapsto> t))
           | None \<Rightarrow>
               variablesLoop opts rest
                 (vj(name \<mapsto> quoteJSONString ''[Unable to convert value to JSON]'')))"

text \<open>\<open>requestDidStart\<close>. Its surroundings are arguments: \<open>methodTable\<close> is the enumeration
  \<open>Trace.HTTP.Method\<close> of the protobuf module (\<open>UNKNOWN\<close> is 0), \<open>clientInfo\<close> is what
  \<open>this.generateClientInfo(o.requestContext)\<close> returns, \<open>nowMillis\<close> is \<open>+new Date()\<close> and
  \<open>hrnow\<close> is \<open>process.hrtime()\<close>.\<close>

definition requestDidStart ::
  "('n, 's, 'o) EngineReportingOptions \<Rightarrow> (string \<rightharpoonup> nat) \<Rightarrow> ClientInfo option \<Rightarrow> nat \<Rightarrow> nat \<times> nat \<Rightarrow>
   'd RequestDidStartArgs \<Rightarrow> 'd EngineReportingExtension \<Rightarrow> (Exception + unit) \<times> 'd EngineReportingExtension" where
  "requestDidStart opts methodTable clientInfo nowMillis hrnow args ext =
     (let ext1 = ext\<lparr>trace := (trace ext)\<lparr>trace_startTime := Some (dateToTimestamp nowMillis)\<rparr>\<rparr>
      in case startTiming hrnow (treeBuilder ext1) of
           (Inl e, tb) \<Rightarrow> (Inl e, ext1\<lparr>treeBuilder := tb\<rparr>)
         | (Inr u, tb) \<Rightarrow>
             let ext2 = ext1\<lparr>treeBuilder := tb, queryString := arg_queryString args,
                              documentAST := arg_parsedQuery args\<rparr>;
                 m = (case methodTable (request_method (arg_request args)) of
                        Some v \<Rightarrow> (if v = 0 then 0 else v)
                      | None \<Rightarrow> 0);
                 t3 = (trace ext2)\<lparr>http := Some \<lparr>http_method = m, requestHeaders = Map.empty\<rparr>\<rparr>;
                 t4 = (if privateHeaders opts \<noteq> Flag True then
                         let t4a = t3\<lparr>http := Some \<lparr>http_method = m,
                                      requestHeaders = headersLoop opts (request_headers (arg_request args)) Map.empty\<rparr>\<rparr>;
                             t4b = (if truthy (metrics_persistedQueryHit (arg_metrics args))
                                    then t4a\<lparr>persistedQueryHit := True\<rparr> else t4a)
                         in (if truthy (metrics_persistedQueryRegister (arg_metrics args))
                             then t4b\<lparr>persistedQueryRegister := True\<rparr> else t4b)
                       else t3);
                 t5 = (case arg_variables args of
                         Some vars \<Rightarrow>
                           (if privateVariables opts \<noteq> Flag True
                            then t4\<lparr>details := Some \<lparr>variablesJson = variablesLoop opts vars Map.empty\<rparr>\<rparr>
                            else t4)
                       | None \<Rightarrow> t4);
                 t6 = (case clientInfo of
                         Some ci \<Rightarrow>
                           t5\<lparr>clientVersion := (case info_clientVersion ci of Some s \<Rightarrow> s | None \<Rightarrow> []),
                              clientReferenceId := (case info_clientReferenceId ci of Some s \<Rightarrow> s | None \<Rightarrow> []),
                              clientName := (case info_clientName ci of Some s \<Rightarrow> s | None \<Rightarrow> [])\<rparr>
                       | None \<Rightarrow> t5)
             in (Inr (), ext2\<lparr>trace := t6\<rparr>))"

text \<open>The closure \<open>requestDidStart\<close> returns. \<open>metrics\<close>, \<open>operationName\<close> and \<open>document\<close>
  are the fields of \<open>o.requestContext\<close> as they are when the request ends, \<open>hr\<close> is
  \<open>process.hrtime(this.startHrTime)\<close>; the result is the argument of \<open>this.addTrace\<close>.\<close>

definition requestDidEnd ::
  "nat \<Rightarrow> nat \<times> nat \<Rightarrow> Metrics \<Rightarrow> string option \<Rightarrow> 'd option \<Rightarrow> string \<Rightarrow>
   'd EngineReportingExtension \<Rightarrow> (Exception + 'd AddTraceArgs) \<times> 'd EngineReportingExtension" where
  "requestDidEnd nowMillis hr metrics operationName document queryHash ext =
     (case stopTiming hr (treeBuilder ext) of
        (Inl e, tb) \<Rightarrow> (Inl e, ext\<lparr>treeBuilder := tb\<rparr>)
      | (Inr (durationNs', rootNode'), tb) \<Rightarrow>
          let t = (trace ext)\<lparr>durationNs := durationNs', root := Some rootNode',
                     trace_endTime := Some (dateToTimestamp nowMillis),
                     fullQueryCacheHit := truthy (metrics_responseCacheHit metrics),
                     forbiddenOperation := truthy (metrics_forbiddenOperation metrics),
                     registeredOperation := truthy (metrics_registeredOperation metrics)\<rparr>;
              opName = (case explicitOperationName ext of
                          Some n \<Rightarrow> (if n \<noteq> [] then n
                                     else (case operationName of Some n' \<Rightarrow> n' | None \<Rightarrow> []))
                        | None \<Rightarrow> (case operationName of Some n' \<Rightarrow> n' | None \<Rightarrow> []));
              doc = (case documentAST ext of Some d \<Rightarrow> Some d | None \<Rightarrow> document)
          in (Inr \<lparr>add_operationName = opName, add_queryHash = queryHash, add_documentAST = doc,
                   add_queryString = (case queryString ext of Some q \<Rightarrow> q | None \<Rightarrow> []),
                   add_trace = t\<rparr>,
              ext\<lparr>treeBuilder := tb, trace := t\<rparr>))"

text \<open>\<open>executionDidStart\<close>: a non-empty operation name of the caller is kept; the document
  always is.\<close>

definition executionDidStart ::
  "string option \<Rightarrow> 'd \<Rightarrow> 'd EngineReportingExtension \<Rightarrow> 'd EngineReportingExtension" where
  "executionDidStart operationName document ext =
     (let ext1 = (case operationName of
                    Some n \<Rightarrow> (if n \<noteq> [] then ext\<lparr>explicitOperationName := Some n\<rparr> else ext)
                  | None \<Rightarrow> ext)
      in ext1\<lparr>documentAST := Some document\<rparr>)"

text \<open>\<open>willResolveField\<close> of the extension hands the call to the builder.\<close>

definition willResolveField_ext ::
  "GraphQLResolveInfo \<Rightarrow> nat \<times> nat \<Rightarrow> 'd EngineReportingExtension \<Rightarrow>
   (Exception + nat) \<times> 'd EngineReportingExtension" where
  "willResolveField_ext info hr ext =
     (case willResolveField info hr (treeBuilder ext) of
        (r, tb) \<Rightarrow> (r, ext\<lparr>treeBuilder := tb\<rparr>))"

subsection \<open>Errors\<close>

text \<open>\<open>rewriteError\<close> of the extension. \<open>new_GraphQLError\<close> is the constructor of graphql-js,
  with its seven arguments in order. The copy handed to the user's function has the value of
  \<open>err\<close>.\<close>

definition rewriteError_ext ::
  "(string \<Rightarrow> 'n \<Rightarrow> 's \<Rightarrow> nat list option \<Rightarrow> PathKey list option \<Rightarrow> 'o \<Rightarrow> JSValue option \<Rightarrow> ('n, 's, 'o) GraphQLError) \<Rightarrow>
   ('n, 's, 'o) EngineReportingOptions \<Rightarrow> ('n, 's, 'o) GraphQLError \<Rightarrow>
   Exception + ('n, 's, 'o) GraphQLErrorOrMaskedErrorObject option" where
  "rewriteError_ext new_GraphQLError opts err =
     (if maskErrorDetails opts then Inr (Some (MaskedErrorObject ''<masked>''))
      else case rewriteError opts of
             Some f \<Rightarrow>
               (let clonedError = err
                in case f clonedError of
                     Throws e \<Rightarrow> Inl e
                   | ReturnsNull \<Rightarrow> Inr None
                   | ReturnsOther \<Rightarrow> Inr (Some (IsGraphQLError err))
                   | ReturnsGraphQLError rewrittenError \<Rightarrow>
                       Inr (Some (IsGraphQLError
                         (new_GraphQLError (err_message rewrittenError) (err_nodes err) (err_source err)
                            (err_positions err) (err_path err) (err_originalError err)
                            (err_extensions err)))))
           | None \<Rightarrow> Inr (Some (IsGraphQLError err)))"

text \<open>\<open>addError\<close> of the extension. \<open>enumerable\<close> is the view \<open>JSON.stringify\<close> has of a
  \<open>GraphQLError\<close> (its enumerable properties, which graphql-js decides); of the masked
  object it sees the one property \<open>message\<close>.\<close>

definition addError_ext ::
  "(('n, 's, 'o) GraphQLError \<Rightarrow> JSValue) \<Rightarrow> ('n, 's, 'o) GraphQLErrorOrMaskedErrorObject \<Rightarrow>
   'd EngineReportingExtension \<Rightarrow> (Exception + unit) \<times> 'd EngineReportingExtension" where
  "addError_ext enumerable error' ext =
     (let locs = map (\<lambda>(l, c). \<lparr>line = l, column = c\<rparr>)
                   (case locations_of error' of Some ls \<Rightarrow> ls | None \<Rightarrow> [])
      in case JSON_stringify
                (case error' of
                   MaskedErrorObject m \<Rightarrow> JObject [(''message'', JString m)]
                 | IsGraphQLError e \<Rightarrow> enumerable e) of
           None \<Rightarrow> (Inl (TypeError ''Converting circular structure to JSON''), ext)
         | Some js \<Rightarrow>
             (case addError (path_of error')
                     \<lparr>message = message_of error', location = locs, json = js\<rparr> (treeBuilder ext) of
                (r, tb) \<Rightarrow> (r, ext\<lparr>treeBuilder := tb\<rparr>)))"

text \<open>\<open>didEncounterErrors\<close>: the \<open>forEach\<close> stops at the first exception.\<close>

fun didEncounterErrors ::
  "(string \<Rightarrow> 'n \<Rightarrow> 's \<Rightarrow> nat list option \<Rightarrow> PathKey list option \<Rightarrow> 'o \<Rightarrow> JSValue option \<Rightarrow> ('n, 's, 'o) GraphQLError) \<Rightarrow>
   (('n, 's, 'o) GraphQLError \<Rightarrow> JSValue) \<Rightarrow> ('n, 's, 'o) EngineReportingOptions \<Rightarrow>
   ('n, 's, 'o) GraphQLError list \<Rightarrow> 'd EngineReportingExtension \<Rightarrow>
   (Exception + unit) \<times> 'd EngineReportingExtension" where
  "didEncounterErrors new_GraphQLError enumerable opts [] ext = (Inr (), ext)"
| "didEncounterErrors new_GraphQLError enumerable opts (err # errors) ext =
     (case rewriteError_ext new_GraphQLError opts err of
        Inl e \<Rightarrow> (Inl e, ext)
      | Inr None \<Rightarrow> didEncounterErrors new_GraphQLError enumerable opts errors ext
      | Inr (Some errorForReporting) \<Rightarrow>
          (case addError_ext enumerable errorForReporting ext of
             (Inl e, ext1) \<Rightarrow> (Inl e, ext1)
           | (Inr u, ext1) \<Rightarrow> didEncounterErrors new_GraphQLError enumerable opts errors ext1))"

section \<open>Field starts and the tree they build\<close>

text \<open>A key as the query engine produces it: an array index, or a field name or alias. A
  GraphQL name is a letter or underscore followed by letters, digits and underscores; what
  matters here is that it is not empty, has no dot and does not start with a digit.\<close>

fun wf_key :: "PathKey \<Rightarrow> bool" where
  "wf_key (FieldKey s) = (s \<noteq> [] \<and> CHR ''.'' \<notin> set s \<and> hd s \<notin> set ''0123456789'')"
| "wf_key (IndexKey n) = True"

text \<open>The node registered for a path given as an array of keys.\<close>

definition nodeAt :: "EngineReportingTreeBuilder \<Rightarrow> PathKey list \<Rightarrow> nat option" where
  "nodeAt b ks = nodes b (joinKeys ks)"

text \<open>A node carries the segment \<open>k\<close>: \<open>fieldName\<close> for a string, \<open>index\<close> for a number.\<close>

definition carries :: "Node \<Rightarrow> PathKey \<Rightarrow> bool" where
  "carries n k \<longleftrightarrow>
     fieldName n = (case k of FieldKey s \<Rightarrow> Some s | IndexKey i \<Rightarrow> None) \<and>
     index n = (case k of FieldKey s \<Rightarrow> None | IndexKey i \<Rightarrow> Some i)"

text \<open>\<open>tree_inv S P b\<close>: the nodes of \<open>b\<close> are, one for one, the paths in \<open>S\<close>; every node
  carries the last key of its path; the children of a node are the nodes of the paths one
  key longer, except those in \<open>P\<close>, which are registered but not yet pushed onto their
  parent (the state of \<open>newNode\<close> between \<open>this.nodes.set\<close> and \<open>parentNode.child.push\<close>).\<close>

definition tree_inv :: "PathKey list set \<Rightarrow> PathKey list set \<Rightarrow> EngineReportingTreeBuilder \<Rightarrow> bool" where
  "tree_inv S P b \<longleftrightarrow>
     [] \<in> S \<and> P \<subseteq> S \<and> [] \<notin> P \<and>
     (\<forall>ks\<in>S. list_all wf_key ks) \<and>
     (\<forall>ks k. ks @ [k] \<in> S \<longrightarrow> ks @ [k] \<notin> P \<longrightarrow> ks \<in> S) \<and>
     (\<forall>ks. list_all wf_key ks \<longrightarrow> ks \<notin> S \<longrightarrow> nodeAt b ks = None) \<and>
     (\<forall>ks\<in>S. \<exists>a<nextNode b. nodeAt b ks = Some a) \<and>
     (\<forall>a<nextNode b. \<exists>ks\<in>S. nodeAt b ks = Some a) \<and>
     inj_on (nodeAt b) S \<and>
     nodeAt b [] = Some (rootNode b) \<and>
     (\<forall>ks\<in>S. \<forall>a. nodeAt b ks = Some a \<longrightarrow>
        distinct (child (heap b a)) \<and>
        set (child (heap b a)) = {c. \<exists>k. ks @ [k] \<in> S \<and> ks @ [k] \<notin> P \<and> nodeAt b (ks @ [k]) = Some c}) \<and>
     (\<forall>ks k a. ks @ [k] \<in> S \<longrightarrow> nodeAt b (ks @ [k]) = Some a \<longrightarrow> carries (heap b a) k)"

text \<open>\<open>builds_tree T b\<close>: the node tree of \<open>b\<close> is the tree \<open>T\<close> of paths. Every path of \<open>T\<close> has
  a node and every node is the node of a path of \<open>T\<close>, different paths have different
  nodes, the empty path has the root node, the child list of a path's node holds, once
  each, the nodes of the paths of \<open>T\<close> that extend it by one key, and each node carries the
  last key of its path.\<close>

definition builds_tree :: "PathKey list set \<Rightarrow> EngineReportingTreeBuilder \<Rightarrow> bool" where
  "builds_tree T b \<longleftrightarrow>
     (\<forall>ks\<in>T. \<exists>a<nextNode b. nodeAt b ks = Some a) \<and>
     (\<forall>a<nextNode b. \<exists>ks\<in>T. nodeAt b ks = Some a) \<and>
     inj_on (nodeAt b) T \<and>
     nodeAt b [] = Some (rootNode b) \<and>
     (\<forall>ks\<in>T. \<forall>a. nodeAt b ks = Some a \<longrightarrow>
        distinct (child (heap b a)) \<and>
        set (child (heap b a)) = {c. \<exists>k. ks @ [k] \<in> T \<and> nodeAt b (ks @ [k]) = Some c}) \<and>
     (\<forall>ks k a. ks @ [k] \<in> T \<longrightarrow> nodeAt b (ks @ [k]) = Some a \<longrightarrow> carries (heap b a) k)"

text \<open>The calls of \<open>willResolveField\<close> the query engine makes, in order, each with the clock
  reading it meets; the first exception ends the run.\<close>

fun resolveFields :: "(GraphQLResolveInfo \<times> (nat \<times> nat)) list \<Rightarrow> EngineReportingTreeBuilder \<Rightarrow> (Exception + unit) \<times> EngineReportingTreeBuilder" where
  "resolveFields [] b = (Inr (), b)"
| "resolveFields ((info, hr) # es) b =
     (case willResolveField info hr b of
        (Inl e, b1) \<Rightarrow> (Inl e, b1)
      | (Inr node, b1) \<Rightarrow> resolveFields es b1)"

text \<open>\<open>fresh_starts seen ps\<close>: the paths \<open>ps\<close>, started in this order after the paths \<open>seen\<close>,
  have well-formed keys, and none of them is started when it, or a path below it, was
  started before.\<close>

fun fresh_starts :: "PathKey list list \<Rightarrow> PathKey list list \<Rightarrow> bool" where
  "fresh_starts seen [] = True"
| "fresh_starts seen (p # ps) =
     (p \<noteq> [] \<and> list_all wf_key p \<and> (\<forall>q\<in>set seen. \<not> prefix p q) \<and> fresh_starts (p # seen) ps)"

section \<open>Properties and example values\<close>

text \<open>\<open>errorAppended b n err b'\<close>: from \<open>b\<close> to \<open>b'\<close> the error \<open>err\<close> was pushed onto the
  error list of node \<open>n\<close>, and nothing else changed.\<close>

definition errorAppended :: "EngineReportingTreeBuilder \<Rightarrow> nat \<Rightarrow> TraceError \<Rightarrow> EngineReportingTreeBuilder \<Rightarrow> bool" where
  "errorAppended b n err b' \<longleftrightarrow>
     heap b' n = (heap b n)\<lparr>error := error (heap b n) @ [err]\<rparr> \<and>
     (\<forall>a. a \<noteq> n \<longrightarrow> heap b' a = heap b a) \<and>
     b'\<lparr>heap := heap b\<rparr> = b"

text \<open>A builder after \<open>startTiming\<close>, the start of the field \<open>a\<close>, and \<open>stopTiming\<close>.\<close>

definition startedBuilder :: EngineReportingTreeBuilder where
  "startedBuilder = snd (startTiming (1, 2) new_EngineReportingTreeBuilder)"

definition infoA :: GraphQLResolveInfo where
  "infoA = \<lparr>info_path = Path NoPath (FieldKey ''a''), info_returnType = ''String'',
     info_parentType = ''Query''\<rparr>"

definition infoAB :: GraphQLResolveInfo where
  "infoAB = \<lparr>info_path = Path (Path NoPath (FieldKey ''a'')) (FieldKey ''b''),
     info_returnType = ''Int'', info_parentType = ''A''\<rparr>"

definition builderA :: EngineReportingTreeBuilder where
  "builderA = snd (willResolveField infoA (0, 5) startedBuilder)"

definition stoppedBuilder :: EngineReportingTreeBuilder where
  "stoppedBuilder = snd (stopTiming (0, 8) builderA)"

definition exampleError :: TraceError where
  "exampleError = \<lparr>message = ''boom'', location = [\<lparr>line = 1, column = 2\<rparr>], json = ''{}''\<rparr>"

definition exampleOptions :: "(unit, unit, unit) EngineReportingOptions" where
  "exampleOptions = \<lparr>privateHeaders = Names [''X-Secret''], privateVariables = Names [''password''],
     maskErrorDetails = False, rewriteError = None\<rparr>"

definition exampleMetrics :: Metrics where
  "exampleMetrics = \<lparr>metrics_responseCacheHit = None, metrics_forbiddenOperation = Some False,
     metrics_registeredOperation = None, metrics_persistedQueryHit = Some True,
     metrics_persistedQueryRegister = None\<rparr>"

definition exampleArgs :: "unit RequestDidStartArgs" where
  "exampleArgs = \<lparr>arg_request = \<lparr>request_method = ''POST'',
        request_headers = [(''authorization'', ''token''), (''x-secret'', ''s''), (''accept'', ''json'')]\<rparr>,
     arg_queryString = Some ''{ a }'', arg_parsedQuery = None,
     arg_variables = Some [(''password'', JString ''x''), (''user'', JString ''bob''),
                           (''empty'', JString []), (''loop'', JCircular)],
     arg_metrics = exampleMetrics, arg_queryHash = ''abc123''\<rparr>"

definition redactAllOptions :: "(unit, unit, unit) EngineReportingOptions" where
  "redactAllOptions = \<lparr>privateHeaders = Flag True, privateVariables = Flag True,
     maskErrorDetails = False, rewriteError = None\<rparr>"

text \<open>The record \<open>addError\<close> of the extension builds from the masked object.\<close>

definition maskedTraceError :: TraceError where
  "maskedTraceError = \<lparr>message = ''<masked>'', location = [],
     json = ''{'' @ quoteJSONString ''message'' @ '':'' @ quoteJSONString ''<masked>'' @ ''}''\<rparr>"



text \<open>A constructor, an error and a rewrite function to try the theorems on.\<close>

definition exampleLocate :: "unit \<Rightarrow> unit \<Rightarrow> nat list option \<Rightarrow> (nat \<times> nat) list option" where
  "exampleLocate n s p = map_option (map (\<lambda>q. (1, Suc q))) p"

definition exampleConstructor ::
  "string \<Rightarrow> unit \<Rightarrow> unit \<Rightarrow> nat list option \<Rightarrow> PathKey list option \<Rightarrow> unit \<Rightarrow> JSValue option \<Rightarrow> (unit, unit, unit) GraphQLError" where
  "exampleConstructor m n s p pa oe x =
     \<lparr>err_message = m, err_locations = exampleLocate n s p, err_path = pa, err_nodes = n,
      err_source = s, err_positions = p, err_originalError = oe, err_extensions = x\<rparr>"

definition exampleGraphQLError :: "(unit, unit, unit) GraphQLError" where
  "exampleGraphQLError = exampleConstructor ''secret went wrong'' () () (Some [4])
     (Some [FieldKey ''a'']) () (Some (JObject [(''code'', JString ''E1'')]))"

definition exampleEnumerable :: "(unit, unit, unit) GraphQLError \<Rightarrow> JSValue" where
  "exampleEnumerable e = JObject [(''message'', JString (err_message e))]"




definition failingRewrite :: "(unit, unit, unit) GraphQLError \<Rightarrow> (unit, unit, unit) RewriteOutcome" where
  "failingRewrite e = Throws (Error ''rewrite failed'')"

definition maskOptions :: "(unit, unit, unit) EngineReportingOptions" where
  "maskOptions = \<lparr>privateHeaders = NotSet, privateVariables = NotSet,
     maskErrorDetails = True, rewriteError = Some failingRewrite\<rparr>"

definition extensionA :: "unit EngineReportingExtension" where
  "extensionA = new_EngineReportingExtension\<lparr>treeBuilder := builderA\<rparr>"

text \<open>More runs of the builder: the field \<open>a\<close> started twice; the field \<open>a.b\<close> started
  before its parent \<open>a\<close>; the fields \<open>a\<close>, \<open>a.b\<close> and, below a list, \<open>c.0.d\<close>.\<close>

definition builderAA :: EngineReportingTreeBuilder where
  "builderAA = snd (willResolveField infoA (0, 6) builderA)"

definition builderBA :: EngineReportingTreeBuilder where
  "builderBA = snd (resolveFields [(infoAB, (0, 5)), (infoA, (0, 6))] startedBuilder)"

definition infoC0D :: GraphQLResolveInfo where
  "infoC0D = \<lparr>info_path = Path (Path (Path NoPath (FieldKey ''c'')) (IndexKey 0)) (FieldKey ''d''),
     info_returnType = ''Int'', info_parentType = ''C''\<rparr>"

definition exampleStarts :: "(GraphQLResolveInfo \<times> (nat \<times> nat)) list" where
  "exampleStarts = [(infoA, (0, 5)), (infoAB, (0, 6)), (infoC0D, (0, 7))]"

section \<open>Evaluating the examples\<close>

lemma joinKeys_Nil: "joinKeys [] = []"
  by (simp add: joinKeys_def)

lemma startedBuilder_eq:
  "startedBuilder = new_EngineReportingTreeBuilder\<lparr>startHrTime := Some (1, 2)\<rparr>"
  by (simp add: startedBuilder_def startTiming_def new_EngineReportingTreeBuilder_def)

lemma startedBuilder_fields:
  "startHrTime startedBuilder = Some (1, 2)" "\<not> stopped startedBuilder"
  "rootNode startedBuilder = 0" "nextNode startedBuilder = 1"
  "nodes startedBuilder = [[] \<mapsto> 0]" "heap startedBuilder = (\<lambda>_. emptyNode)"
  by (simp_all add: startedBuilder_eq new_EngineReportingTreeBuilder_def rootResponsePath_def)

lemma willResolveField_infoA:
  "willResolveField infoA (0, 5) startedBuilder = (Inr 1, builderA)"
  by (simp add: builderA_def willResolveField_def startedBuilder_fields infoA_def new_Node_def
        updateNode_def joinKeys_def)

lemma builderA_fields:
  "startHrTime builderA = Some (1, 2)" "\<not> stopped builderA"
  "rootNode builderA = 0" "nextNode builderA = 2"
  "nodes builderA = [[] \<mapsto> 0, ''a'' \<mapsto> 1]"
  "heap builderA 0 = emptyNode\<lparr>child := [Suc 0]\<rparr>"
  "heap builderA (Suc 0) = emptyNode\<lparr>fieldName := Some ''a'', type := ''String'', parentType := ''Query'',
     startTime := 5\<rparr>"
  by (simp_all add: builderA_def willResolveField_def startedBuilder_fields infoA_def new_Node_def
        updateNode_def joinKeys_def durationHrTimeToNanos_def emptyNode_def)

lemma stoppedBuilder_eq: "stoppedBuilder = builderA\<lparr>stopped := True\<rparr>"
  by (simp add: stoppedBuilder_def stopTiming_def builderA_fields)

section \<open>The snapshot loops\<close>



lemma requestDidStart_fresh:
  assumes "startHrTime (treeBuilder ext) = None" and "\<not> stopped (treeBuilder ext)"
  shows "fst (requestDidStart opts mt ci now hr args ext) = Inr ()"
    and "http (trace (snd (requestDidStart opts mt ci now hr args ext))) =
           Some \<lparr>http_method = (case mt (request_method (arg_request args)) of Some v \<Rightarrow> v | None \<Rightarrow> 0),
                 requestHeaders = (if privateHeaders opts \<noteq> Flag True
                    then headersLoop opts (request_headers (arg_request args)) Map.empty
                    else Map.empty)\<rparr>"
    and "details (trace (snd (requestDidStart opts mt ci now hr args ext))) =
           (case arg_variables args of
              Some vars \<Rightarrow> if privateVariables opts \<noteq> Flag True
                            then Some \<lparr>variablesJson = variablesLoop opts vars Map.empty\<rparr>
                            else details (trace ext)
            | None \<Rightarrow> details (trace ext))"
    and "persistedQueryHit (trace (snd (requestDidStart opts mt ci now hr args ext))) =
           (if privateHeaders opts \<noteq> Flag True \<and> truthy (metrics_persistedQueryHit (arg_metrics args))
            then True else persistedQueryHit (trace ext))"
    and "persistedQueryRegister (trace (snd (requestDidStart opts mt ci now hr args ext))) =
           (if privateHeaders opts \<noteq> Flag True \<and> truthy (metrics_persistedQueryRegister (arg_metrics args))
            then True else persistedQueryRegister (trace ext))"
    and "treeBuilder (snd (requestDidStart opts mt ci now hr args ext)) =
           (treeBuilder ext)\<lparr>startHrTime := Some hr\<rparr>"
  using assms
  by (auto simp: requestDidStart_def startTiming_def Let_def split: option.splits)



lemma stringify_empty_string: "JSON_stringify (JString []) = Some [CHR 0x22, CHR 0x22]"
  by (simp add: quoteJSONString_def)


lemma stringify_message_object:
  "JSON_stringify (JObject [(''message'', JString m)]) =
     Some (''{'' @ quoteJSONString ''message'' @ '':'' @ quoteJSONString m @ ''}'')"
  by simp



section \<open>Request end and error reporting\<close>

lemma requestDidEnd_started:
  assumes "startHrTime (treeBuilder ext) \<noteq> None" and "\<not> stopped (treeBuilder ext)"
  shows "\<exists>a. fst (requestDidEnd now hr m opn doc qh ext) = Inr a
           \<and> persistedQueryHit (add_trace a) = persistedQueryHit (trace ext)
           \<and> persistedQueryRegister (add_trace a) = persistedQueryRegister (trace ext)
           \<and> fullQueryCacheHit (add_trace a) = truthy (metrics_responseCacheHit m)
           \<and> forbiddenOperation (add_trace a) = truthy (metrics_forbiddenOperation m)
           \<and> registeredOperation (add_trace a) = truthy (metrics_registeredOperation m)"
  using assms by (auto simp: requestDidEnd_def stopTiming_def Let_def)

lemma new_extension_fresh:
  "startHrTime (treeBuilder (new_EngineReportingExtension :: 'd EngineReportingExtension)) = None"
  "\<not> stopped (treeBuilder (new_EngineReportingExtension :: 'd EngineReportingExtension))"
  "persistedQueryHit (trace (new_EngineReportingExtension :: 'd EngineReportingExtension)) = False"
  "persistedQueryRegister (trace (new_EngineReportingExtension :: 'd EngineReportingExtension)) = False"
  "details (trace (new_EngineReportingExtension :: 'd EngineReportingExtension)) = None"
  by (simp_all add: new_EngineReportingExtension_def new_EngineReportingTreeBuilder_def new_Trace_def)

lemma addError_ext_masked:
  assumes "startHrTime (treeBuilder ext) \<noteq> None" and "\<not> stopped (treeBuilder ext)"
  shows "addError_ext enumerable (MaskedErrorObject ''<masked>'') ext =
           (Inr (), ext\<lparr>treeBuilder :=
              updateNode (rootNode (treeBuilder ext)) (\<lambda>n. n\<lparr>error := error n @ [maskedTraceError]\<rparr>)
                (treeBuilder ext)\<rparr>)"
  using assms by (simp add: addError_ext_def addError_def maskedTraceError_def)

lemma rewriteError_ext_masked:
  "maskErrorDetails opts \<Longrightarrow>
   rewriteError_ext new_GraphQLError opts err = Inr (Some (MaskedErrorObject ''<masked>''))"
  by (simp add: rewriteError_ext_def)

lemma masked_run:
  assumes "maskErrorDetails opts"
  shows "startHrTime (treeBuilder ext) \<noteq> None \<Longrightarrow> \<not> stopped (treeBuilder ext) \<Longrightarrow>
         didEncounterErrors new_GraphQLError enumerable opts errs ext =
           (Inr (), ext\<lparr>treeBuilder :=
              updateNode (rootNode (treeBuilder ext))
                (\<lambda>n. n\<lparr>error := error n @ replicate (length errs) maskedTraceError\<rparr>)
                (treeBuilder ext)\<rparr>)"
proof (induction errs arbitrary: ext)
  case Nil
  then show ?case by (simp add: updateNode_def)
next
  case (Cons e errs)
  let ?ext1 = "ext\<lparr>treeBuilder :=
              updateNode (rootNode (treeBuilder ext)) (\<lambda>n. n\<lparr>error := error n @ [maskedTraceError]\<rparr>)
                (treeBuilder ext)\<rparr>"
  have s1: "startHrTime (treeBuilder ?ext1) \<noteq> None" and s2: "\<not> stopped (treeBuilder ?ext1)"
    using Cons.prems by (simp_all add: updateNode_def)
  have step: "didEncounterErrors new_GraphQLError enumerable opts (e # errs) ext =
      didEncounterErrors new_GraphQLError enumerable opts errs ?ext1"
    using addError_ext_masked [OF Cons.prems, of enumerable] rewriteError_ext_masked [OF assms]
    by simp
  show ?case
    unfolding step Cons.IH [OF s1 s2]
    by (simp add: updateNode_def replicate_append_same)
qed

section \<open>Path strings are faithful\<close>

lemma digit_char_digit: "d < 10 \<Longrightarrow> digit_char d \<in> set ''0123456789''"
  unfolding digit_char_def by (rule nth_mem) simp

lemma digit_char_inj: "d < 10 \<Longrightarrow> e < 10 \<Longrightarrow> digit_char d = digit_char e \<Longrightarrow> d = e"
proof -
  assume a: "d < 10" "e < 10" "digit_char d = digit_char e"
  have dist: "distinct ''0123456789''" by simp
  have len: "length ''0123456789'' = 10" by simp
  from a show "d = e"
    unfolding digit_char_def using dist len nth_eq_iff_index_eq by metis
qed

lemma string_of_nat_nonempty: "string_of_nat n \<noteq> []"
  by (subst string_of_nat.simps) simp

lemma string_of_nat_digits: "set (string_of_nat n) \<subseteq> set ''0123456789''"
proof (induction n rule: string_of_nat.induct)
  case (1 n)
  show ?case
  proof (cases "n < 10")
    case True
    then show ?thesis
      using digit_char_digit [of n] by (subst string_of_nat.simps) simp
  next
    case False
    have m: "n mod 10 < 10" by simp
    from False 1 have ih: "set (string_of_nat (n div 10)) \<subseteq> set ''0123456789''" by simp
    show ?thesis
      using False ih digit_char_digit [OF m] by (subst string_of_nat.simps) simp
  qed
qed

lemma string_of_nat_length_ge2: "\<not> n < 10 \<Longrightarrow> 2 \<le> length (string_of_nat n)"
proof -
  assume a: "\<not> n < 10"
  have "length (string_of_nat (n div 10)) \<ge> 1"
    using string_of_nat_nonempty [of "n div 10"] by (cases "string_of_nat (n div 10)") auto
  with a show ?thesis by (subst string_of_nat.simps) simp
qed

lemma string_of_nat_inj: "string_of_nat n = string_of_nat m \<Longrightarrow> n = m"
proof (induction n arbitrary: m rule: string_of_nat.induct)
  case (1 n)
  show ?case
  proof (cases "n < 10")
    case True
    note n10 = True
    show ?thesis
    proof (cases "m < 10")
      case True
      have "string_of_nat n = [digit_char n]" using n10 by (subst string_of_nat.simps) simp
      moreover have "string_of_nat m = [digit_char m]" using True by (subst string_of_nat.simps) simp
      ultimately show ?thesis using "1.prems" digit_char_inj [OF n10 True] by simp
    next
      case False
      have "length (string_of_nat n) = 1" using n10 by (subst string_of_nat.simps) simp
      with string_of_nat_length_ge2 [OF False] "1.prems" show ?thesis by simp
    qed
  next
    case False
    note n10 = False
    show ?thesis
    proof (cases "m < 10")
      case True
      have "length (string_of_nat m) = 1" using True by (subst string_of_nat.simps) simp
      with string_of_nat_length_ge2 [OF n10] "1.prems" show ?thesis by simp
    next
      case False
      have en: "string_of_nat n = string_of_nat (n div 10) @ [digit_char (n mod 10)]"
        using n10 by (subst string_of_nat.simps) simp
      have em: "string_of_nat m = string_of_nat (m div 10) @ [digit_char (m mod 10)]"
        using False by (subst string_of_nat.simps) simp
      from en em "1.prems" have a: "string_of_nat (n div 10) = string_of_nat (m div 10)"
        and b: "digit_char (n mod 10) = digit_char (m mod 10)" by simp_all
      from "1.IH" [OF n10 a] have q: "n div 10 = m div 10" .
      have r: "n mod 10 = m mod 10" using digit_char_inj [OF _ _ b] by simp
      have "n = 10 * (n div 10) + n mod 10" by simp
      also have "\<dots> = 10 * (m div 10) + m mod 10" using q r by simp
      also have "\<dots> = m" by simp
      finally show ?thesis .
    qed
  qed
qed

lemma keyString_nonempty: "wf_key k \<Longrightarrow> keyString k \<noteq> []"
  by (cases k) (simp_all add: string_of_nat_nonempty)

lemma keyString_no_dot: "wf_key k \<Longrightarrow> CHR ''.'' \<notin> set (keyString k)"
proof (cases k)
  case (FieldKey s)
  assume "wf_key k"
  with FieldKey show ?thesis by simp
next
  case (IndexKey n)
  have "CHR ''.'' \<notin> set ''0123456789''" by simp
  with string_of_nat_digits [of n] IndexKey show ?thesis by auto
qed

lemma keyString_inj: "wf_key k \<Longrightarrow> wf_key j \<Longrightarrow> keyString k = keyString j \<Longrightarrow> k = j"
proof (cases k; cases j)
  fix s n
  assume a: "wf_key k" "keyString k = keyString j" "k = FieldKey s" "j = IndexKey n"
  have "hd (string_of_nat n) \<in> set (string_of_nat n)"
    using string_of_nat_nonempty by simp
  then have "hd (string_of_nat n) \<in> set ''0123456789''" using string_of_nat_digits by blast
  with a show "k = j" by simp
next
  fix s n
  assume a: "wf_key j" "keyString k = keyString j" "j = FieldKey s" "k = IndexKey n"
  have "hd (string_of_nat n) \<in> set (string_of_nat n)"
    using string_of_nat_nonempty by simp
  then have "hd (string_of_nat n) \<in> set ''0123456789''" using string_of_nat_digits by blast
  with a show "k = j" by simp
qed (auto dest: string_of_nat_inj)

lemma join_Cons: "join sep (x # xs) = x @ (if xs = [] then [] else sep @ join sep xs)"
  by (cases xs) simp_all

lemma join_dot_split:
  assumes "CHR ''.'' \<notin> set x"
  shows "takeWhile (\<lambda>c. c \<noteq> CHR ''.'') (join ''.'' (x # xs)) = x"
    and "dropWhile (\<lambda>c. c \<noteq> CHR ''.'') (join ''.'' (x # xs)) = (if xs = [] then [] else ''.'' @ join ''.'' xs)"
proof -
  have a: "\<And>c. c \<in> set x \<Longrightarrow> c \<noteq> CHR ''.''" using assms by auto
  have t: "\<And>r. takeWhile (\<lambda>c. c \<noteq> CHR ''.'') (x @ r) = x @ takeWhile (\<lambda>c. c \<noteq> CHR ''.'') r"
    by (rule takeWhile_append2) (rule a)
  have d: "\<And>r. dropWhile (\<lambda>c. c \<noteq> CHR ''.'') (x @ r) = dropWhile (\<lambda>c. c \<noteq> CHR ''.'') r"
    by (rule dropWhile_append2) (rule a)
  show "takeWhile (\<lambda>c. c \<noteq> CHR ''.'') (join ''.'' (x # xs)) = x"
    using a by (cases "xs = []") (simp_all add: join_Cons t)
  show "dropWhile (\<lambda>c. c \<noteq> CHR ''.'') (join ''.'' (x # xs)) = (if xs = [] then [] else ''.'' @ join ''.'' xs)"
    using a by (cases "xs = []") (simp_all add: join_Cons d)
qed

lemma join_inj:
  assumes "\<forall>x\<in>set xs. x \<noteq> [] \<and> CHR ''.'' \<notin> set x"
    and "\<forall>y\<in>set ys. y \<noteq> [] \<and> CHR ''.'' \<notin> set y"
    and "join ''.'' xs = join ''.'' ys"
  shows "xs = ys"
  using assms
proof (induction xs arbitrary: ys)
  case Nil
  show ?case
  proof (cases ys)
    case Nil
    then show ?thesis by simp
  next
    case (Cons y ys')
    with Nil.prems have "y \<noteq> []" by simp
    with Nil.prems Cons show ?thesis by (simp add: join_Cons)
  qed
next
  case (Cons x xs)
  show ?case
  proof (cases ys)
    case Nil
    with Cons.prems show ?thesis by (simp add: join_Cons)
  next
    case c: (Cons y ys')
    from Cons.prems c have dx: "CHR ''.'' \<notin> set x" and dy: "CHR ''.'' \<notin> set y" by simp_all
    from Cons.prems(3) c have e: "join ''.'' (x # xs) = join ''.'' (y # ys')" by simp
    have xy: "x = y"
      using join_dot_split(1) [OF dx, of xs] join_dot_split(1) [OF dy, of ys'] e by simp
    have rest: "(if xs = [] then [] else ''.'' @ join ''.'' xs) = (if ys' = [] then [] else ''.'' @ join ''.'' ys')"
      using join_dot_split(2) [OF dx, of xs] join_dot_split(2) [OF dy, of ys'] e by simp
    have "xs = ys'"
    proof (cases "xs = []")
      case True
      with rest show ?thesis by (auto split: if_splits)
    next
      case False
      with rest have "ys' \<noteq> []" and "join ''.'' xs = join ''.'' ys'" by (auto split: if_splits)
      with Cons.IH [of ys'] Cons.prems c show ?thesis by simp
    qed
    with xy c show ?thesis by simp
  qed
qed

lemma joinKeys_inj:
  assumes "list_all wf_key ks" and "list_all wf_key js" and "joinKeys ks = joinKeys js"
  shows "ks = js"
proof -
  have a: "\<forall>x\<in>set (map keyString ks). x \<noteq> [] \<and> CHR ''.'' \<notin> set x"
    using assms(1) by (auto simp: list_all_iff keyString_nonempty keyString_no_dot)
  have b: "\<forall>x\<in>set (map keyString js). x \<noteq> [] \<and> CHR ''.'' \<notin> set x"
    using assms(2) by (auto simp: list_all_iff keyString_nonempty keyString_no_dot)
  have m: "map keyString ks = map keyString js"
    using join_inj [OF a b] assms(3) by (simp add: joinKeys_def)
  show ?thesis
    using m assms(1,2)
  proof (induction ks arbitrary: js)
    case Nil
    then show ?case by simp
  next
    case (Cons k ks)
    then show ?case by (cases js) (auto dest: keyString_inj)
  qed
qed

lemma responsePathAsString_joinKeys: "responsePathAsString p = joinKeys (responsePathAsArray p)"
  by (cases p) (simp_all add: joinKeys_def)

section \<open>The tree invariant\<close>

lemma tree_invD:
  assumes "tree_inv S P b"
  shows "[] \<in> S" and "P \<subseteq> S" and "[] \<notin> P"
    and "\<And>ks. ks \<in> S \<Longrightarrow> list_all wf_key ks"
    and "\<And>ks k. ks @ [k] \<in> S \<Longrightarrow> ks @ [k] \<notin> P \<Longrightarrow> ks \<in> S"
    and "\<And>ks. list_all wf_key ks \<Longrightarrow> ks \<notin> S \<Longrightarrow> nodeAt b ks = None"
    and "\<And>ks. ks \<in> S \<Longrightarrow> \<exists>a<nextNode b. nodeAt b ks = Some a"
    and "\<And>a. a < nextNode b \<Longrightarrow> \<exists>ks\<in>S. nodeAt b ks = Some a"
    and "inj_on (nodeAt b) S"
    and "nodeAt b [] = Some (rootNode b)"
    and "\<And>ks a. ks \<in> S \<Longrightarrow> nodeAt b ks = Some a \<Longrightarrow> distinct (child (heap b a))"
    and "\<And>ks a. ks \<in> S \<Longrightarrow> nodeAt b ks = Some a \<Longrightarrow>
           set (child (heap b a)) = {c. \<exists>k. ks @ [k] \<in> S \<and> ks @ [k] \<notin> P \<and> nodeAt b (ks @ [k]) = Some c}"
    and "\<And>ks k a. ks @ [k] \<in> S \<Longrightarrow> nodeAt b (ks @ [k]) = Some a \<Longrightarrow> carries (heap b a) k"
  using assms unfolding tree_inv_def by blast+

lemma tree_invI:
  assumes "[] \<in> S" and "P \<subseteq> S" and "[] \<notin> P"
    and "\<And>ks. ks \<in> S \<Longrightarrow> list_all wf_key ks"
    and "\<And>ks k. ks @ [k] \<in> S \<Longrightarrow> ks @ [k] \<notin> P \<Longrightarrow> ks \<in> S"
    and "\<And>ks. list_all wf_key ks \<Longrightarrow> ks \<notin> S \<Longrightarrow> nodeAt b ks = None"
    and "\<And>ks. ks \<in> S \<Longrightarrow> \<exists>a<nextNode b. nodeAt b ks = Some a"
    and "\<And>a. a < nextNode b \<Longrightarrow> \<exists>ks\<in>S. nodeAt b ks = Some a"
    and "inj_on (nodeAt b) S"
    and "nodeAt b [] = Some (rootNode b)"
    and "\<And>ks a. ks \<in> S \<Longrightarrow> nodeAt b ks = Some a \<Longrightarrow> distinct (child (heap b a))"
    and "\<And>ks a. ks \<in> S \<Longrightarrow> nodeAt b ks = Some a \<Longrightarrow>
           set (child (heap b a)) = {c. \<exists>k. ks @ [k] \<in> S \<and> ks @ [k] \<notin> P \<and> nodeAt b (ks @ [k]) = Some c}"
    and "\<And>ks k a. ks @ [k] \<in> S \<Longrightarrow> nodeAt b (ks @ [k]) = Some a \<Longrightarrow> carries (heap b a) k"
  shows "tree_inv S P b"
  unfolding tree_inv_def using assms by blast

lemma register_inv:
  assumes inv: "tree_inv S P b"
    and wf: "list_all wf_key (ks @ [k])" and new: "ks @ [k] \<notin> S"
    and nx: "nextNode b' = Suc (nextNode b)"
    and nd: "nodes b' = (nodes b)(joinKeys (ks @ [k]) \<mapsto> nextNode b)"
    and hp: "\<And>a. a \<noteq> nextNode b \<Longrightarrow> heap b' a = heap b a"
    and ch: "child (heap b' (nextNode b)) = []"
    and ca: "carries (heap b' (nextNode b)) k"
    and rt: "rootNode b' = rootNode b"
  shows "tree_inv (insert (ks @ [k]) S) (insert (ks @ [k]) P) b'"
proof -
  let ?N = "nextNode b"
  let ?k0 = "ks @ [k]"
  note d = tree_invD [OF inv]
  have F1: "\<And>ks'. list_all wf_key ks' \<Longrightarrow> ks' \<noteq> ?k0 \<Longrightarrow> nodeAt b' ks' = nodeAt b ks'"
    using joinKeys_inj [OF _ wf] by (auto simp: nodeAt_def nd)
  have F2: "nodeAt b' ?k0 = Some ?N" by (simp add: nodeAt_def nd)
  have F3: "\<And>ks'. ks' \<in> S \<Longrightarrow> nodeAt b' ks' = nodeAt b ks'"
    using F1 d(4) new by blast
  have F4: "\<And>ks' a. ks' \<in> S \<Longrightarrow> nodeAt b ks' = Some a \<Longrightarrow> a < ?N"
    using d(7) by fastforce
  have F5: "\<And>k'. ?k0 @ [k'] \<in> S \<Longrightarrow> ?k0 @ [k'] \<in> P"
    using d(5) new by blast
  show ?thesis
  proof (rule tree_invI)
    show "[] \<in> insert ?k0 S" using d(1) by simp
    show "insert ?k0 P \<subseteq> insert ?k0 S" using d(2) by auto
    show "[] \<notin> insert ?k0 P" using d(3) by simp
    show "\<And>ks'. ks' \<in> insert ?k0 S \<Longrightarrow> list_all wf_key ks'" using d(4) wf by auto
    show "\<And>ks' k'. ks' @ [k'] \<in> insert ?k0 S \<Longrightarrow> ks' @ [k'] \<notin> insert ?k0 P \<Longrightarrow> ks' \<in> insert ?k0 S"
      using d(5) by auto
    show "\<And>ks'. list_all wf_key ks' \<Longrightarrow> ks' \<notin> insert ?k0 S \<Longrightarrow> nodeAt b' ks' = None"
      using F1 d(6) by auto
    show "\<And>ks'. ks' \<in> insert ?k0 S \<Longrightarrow> \<exists>a<nextNode b'. nodeAt b' ks' = Some a"
    proof -
      fix ks' assume "ks' \<in> insert ?k0 S"
      then consider "ks' = ?k0" | "ks' \<in> S" by auto
      then show "\<exists>a<nextNode b'. nodeAt b' ks' = Some a"
      proof cases
        case 1
        then show ?thesis using F2 nx by simp
      next
        case 2
        then obtain a where "a < ?N" "nodeAt b ks' = Some a" using d(7) by blast
        then show ?thesis using F3 [OF 2] nx by auto
      qed
    qed
    show "\<And>a. a < nextNode b' \<Longrightarrow> \<exists>ks'\<in>insert ?k0 S. nodeAt b' ks' = Some a"
    proof -
      fix a assume "a < nextNode b'"
      then consider "a = ?N" | "a < ?N" using nx by (auto simp: less_Suc_eq)
      then show "\<exists>ks'\<in>insert ?k0 S. nodeAt b' ks' = Some a"
      proof cases
        case 1
        then show ?thesis using F2 by auto
      next
        case 2
        then obtain ks' where "ks' \<in> S" "nodeAt b ks' = Some a" using d(8) by blast
        then show ?thesis using F3 by auto
      qed
    qed
    show "inj_on (nodeAt b') (insert ?k0 S)"
    proof (rule inj_onI)
      fix x y assume x: "x \<in> insert ?k0 S" and y: "y \<in> insert ?k0 S"
        and e: "nodeAt b' x = nodeAt b' y"
      show "x = y"
      proof (cases "x = ?k0")
        case True
        note xk = True
        show ?thesis
        proof (cases "y = ?k0")
          case True
          with xk show ?thesis by simp
        next
          case False
          with y have yS: "y \<in> S" by simp
          obtain a where "a < ?N" "nodeAt b y = Some a" using d(7) [OF yS] by blast
          with F3 [OF yS] e xk F2 show ?thesis by simp
        qed
      next
        case False
        with x have xS: "x \<in> S" by simp
        obtain a where a: "a < ?N" "nodeAt b x = Some a" using d(7) [OF xS] by blast
        show ?thesis
        proof (cases "y = ?k0")
          case True
          with F3 [OF xS] e F2 a show ?thesis by simp
        next
          case False
          with y have yS: "y \<in> S" by simp
          from e F3 [OF xS] F3 [OF yS] have "nodeAt b x = nodeAt b y" by simp
          with d(9) xS yS show ?thesis by (auto dest: inj_onD)
        qed
      qed
    qed
    show "nodeAt b' [] = Some (rootNode b')"
      using F3 [OF d(1)] d(10) rt by simp
    have kids: "\<And>ks' a. ks' \<in> insert ?k0 S \<Longrightarrow> nodeAt b' ks' = Some a \<Longrightarrow>
        distinct (child (heap b' a)) \<and>
        set (child (heap b' a)) =
          {c. \<exists>k'. ks' @ [k'] \<in> insert ?k0 S \<and> ks' @ [k'] \<notin> insert ?k0 P \<and> nodeAt b' (ks' @ [k']) = Some c}"
    proof -
      fix ks' a assume m: "ks' \<in> insert ?k0 S" and n: "nodeAt b' ks' = Some a"
      show "distinct (child (heap b' a)) \<and>
        set (child (heap b' a)) =
          {c. \<exists>k'. ks' @ [k'] \<in> insert ?k0 S \<and> ks' @ [k'] \<notin> insert ?k0 P \<and> nodeAt b' (ks' @ [k']) = Some c}"
      proof (cases "ks' = ?k0")
        case True
        with n F2 have a: "a = ?N" by simp
        have "{c. \<exists>k'. ks' @ [k'] \<in> insert ?k0 S \<and> ks' @ [k'] \<notin> insert ?k0 P \<and> nodeAt b' (ks' @ [k']) = Some c} = {}"
          using True F5 by auto
        then show ?thesis using a ch by simp
      next
        case False
        with m have kS: "ks' \<in> S" by simp
        from n F3 [OF kS] have nb: "nodeAt b ks' = Some a" by simp
        from F4 [OF kS nb] have "a \<noteq> ?N" by simp
        then have h: "heap b' a = heap b a" by (rule hp)
        have "{c. \<exists>k'. ks' @ [k'] \<in> insert ?k0 S \<and> ks' @ [k'] \<notin> insert ?k0 P \<and> nodeAt b' (ks' @ [k']) = Some c}
            = {c. \<exists>k'. ks' @ [k'] \<in> S \<and> ks' @ [k'] \<notin> P \<and> nodeAt b (ks' @ [k']) = Some c}"
          using F3 new by auto
        then show ?thesis using h d(11) [OF kS nb] d(12) [OF kS nb] by simp
      qed
    qed
    show "\<And>ks' a. ks' \<in> insert ?k0 S \<Longrightarrow> nodeAt b' ks' = Some a \<Longrightarrow> distinct (child (heap b' a))"
      using kids by blast
    show "\<And>ks' a. ks' \<in> insert ?k0 S \<Longrightarrow> nodeAt b' ks' = Some a \<Longrightarrow>
           set (child (heap b' a)) =
             {c. \<exists>k'. ks' @ [k'] \<in> insert ?k0 S \<and> ks' @ [k'] \<notin> insert ?k0 P \<and> nodeAt b' (ks' @ [k']) = Some c}"
      using kids by blast
    show "\<And>ks' k' a. ks' @ [k'] \<in> insert ?k0 S \<Longrightarrow> nodeAt b' (ks' @ [k']) = Some a \<Longrightarrow> carries (heap b' a) k'"
    proof -
      fix ks' k' a assume m: "ks' @ [k'] \<in> insert ?k0 S" and n: "nodeAt b' (ks' @ [k']) = Some a"
      show "carries (heap b' a) k'"
      proof (cases "ks' @ [k'] = ?k0")
        case True
        with n F2 have "a = ?N" "k' = k" by simp_all
        then show ?thesis using ca by simp
      next
        case False
        with m have kS: "ks' @ [k'] \<in> S" by blast
        from n F3 [OF kS] have nb: "nodeAt b (ks' @ [k']) = Some a" by simp
        from F4 [OF kS nb] have "a \<noteq> ?N" by simp
        then have "heap b' a = heap b a" by (rule hp)
        then show ?thesis using d(13) [OF kS nb] by simp
      qed
    qed
  qed
qed

lemma same_node:
  "inj_on f S \<Longrightarrow> x \<in> S \<Longrightarrow> y \<in> S \<Longrightarrow> f x = Some a \<Longrightarrow> f y = Some a \<Longrightarrow> x = y"
  by (simp add: inj_on_def)

lemma link_inv:
  assumes inv: "tree_inv S P b"
    and o: "ks @ [k] \<in> P" and par: "ks \<in> S"
    and pa: "nodeAt b ks = Some pa" and ca: "nodeAt b (ks @ [k]) = Some a"
    and nx: "nextNode b' = nextNode b" and nd: "nodes b' = nodes b" and rt: "rootNode b' = rootNode b"
    and hp: "\<And>x. x \<noteq> pa \<Longrightarrow> heap b' x = heap b x"
    and ch: "child (heap b' pa) = child (heap b pa) @ [a]"
    and lb: "fieldName (heap b' pa) = fieldName (heap b pa)" "index (heap b' pa) = index (heap b pa)"
  shows "tree_inv S (P - {ks @ [k]}) b'"
proof -
  let ?k0 = "ks @ [k]"
  note d = tree_invD [OF inv]
  have na: "nodeAt b' = nodeAt b" by (rule ext) (simp add: nodeAt_def nd)
  have k0S: "?k0 \<in> S" using o d(2) by blast
  have car: "\<And>x j. carries (heap b' x) j = carries (heap b x) j"
  proof -
    fix x j show "carries (heap b' x) j = carries (heap b x) j"
      by (cases "x = pa") (simp_all add: carries_def lb hp)
  qed
  show ?thesis
  proof (rule tree_invI)
    show "[] \<in> S" by (rule d(1))
    show "P - {?k0} \<subseteq> S" using d(2) by blast
    show "[] \<notin> P - {?k0}" using d(3) by blast
    show "\<And>ks'. ks' \<in> S \<Longrightarrow> list_all wf_key ks'" by (rule d(4))
    show "\<And>ks' k'. ks' @ [k'] \<in> S \<Longrightarrow> ks' @ [k'] \<notin> P - {?k0} \<Longrightarrow> ks' \<in> S"
      using d(5) par by auto
    show "\<And>ks'. list_all wf_key ks' \<Longrightarrow> ks' \<notin> S \<Longrightarrow> nodeAt b' ks' = None"
      using d(6) na by simp
    show "\<And>ks'. ks' \<in> S \<Longrightarrow> \<exists>a<nextNode b'. nodeAt b' ks' = Some a"
      using d(7) na nx by simp
    show "\<And>a. a < nextNode b' \<Longrightarrow> \<exists>ks'\<in>S. nodeAt b' ks' = Some a"
      using d(8) na nx by simp
    show "inj_on (nodeAt b') S" using d(9) na by simp
    show "nodeAt b' [] = Some (rootNode b')" using d(10) na rt by simp
    have kids: "\<And>ks' x. ks' \<in> S \<Longrightarrow> nodeAt b ks' = Some x \<Longrightarrow>
        distinct (child (heap b' x)) \<and>
        set (child (heap b' x)) =
          {c. \<exists>k'. ks' @ [k'] \<in> S \<and> ks' @ [k'] \<notin> P - {?k0} \<and> nodeAt b (ks' @ [k']) = Some c}"
    proof -
      fix ks' x assume m: "ks' \<in> S" and n: "nodeAt b ks' = Some x"
      show "distinct (child (heap b' x)) \<and>
        set (child (heap b' x)) =
          {c. \<exists>k'. ks' @ [k'] \<in> S \<and> ks' @ [k'] \<notin> P - {?k0} \<and> nodeAt b (ks' @ [k']) = Some c}"
      proof (cases "x = pa")
        case True
        have e: "ks' = ks" using same_node [OF d(9) m par] n pa True by simp
        have old: "set (child (heap b pa)) = {c. \<exists>k'. ks @ [k'] \<in> S \<and> ks @ [k'] \<notin> P \<and> nodeAt b (ks @ [k']) = Some c}"
          using d(12) [OF par pa] .
        have notin: "a \<notin> set (child (heap b pa))"
        proof
          assume "a \<in> set (child (heap b pa))"
          with old obtain k' where k': "ks @ [k'] \<in> S" "ks @ [k'] \<notin> P" "nodeAt b (ks @ [k']) = Some a"
            by auto
          then have "ks @ [k'] = ?k0" using same_node [OF d(9) _ k0S _ ca] by blast
          with k'(2) o show False by simp
        qed
        have dis: "distinct (child (heap b' pa))"
          using d(11) [OF par pa] notin ch by simp
        have "set (child (heap b' pa)) = insert a (set (child (heap b pa)))" using ch by simp
        also have "\<dots> = {c. \<exists>k'. ks @ [k'] \<in> S \<and> ks @ [k'] \<notin> P - {?k0} \<and> nodeAt b (ks @ [k']) = Some c}"
          using old k0S ca by auto
        finally show ?thesis using dis e True by simp
      next
        case False
        then have h: "heap b' x = heap b x" by (rule hp)
        have ne: "ks' \<noteq> ks" using False n pa by auto
        have "{c. \<exists>k'. ks' @ [k'] \<in> S \<and> ks' @ [k'] \<notin> P - {?k0} \<and> nodeAt b (ks' @ [k']) = Some c}
            = {c. \<exists>k'. ks' @ [k'] \<in> S \<and> ks' @ [k'] \<notin> P \<and> nodeAt b (ks' @ [k']) = Some c}"
          using ne by auto
        then show ?thesis using h d(11) [OF m n] d(12) [OF m n] by simp
      qed
    qed
    show "\<And>ks' x. ks' \<in> S \<Longrightarrow> nodeAt b' ks' = Some x \<Longrightarrow> distinct (child (heap b' x))"
      using kids na by simp
    show "\<And>ks' x. ks' \<in> S \<Longrightarrow> nodeAt b' ks' = Some x \<Longrightarrow>
           set (child (heap b' x)) =
             {c. \<exists>k'. ks' @ [k'] \<in> S \<and> ks' @ [k'] \<notin> P - {?k0} \<and> nodeAt b' (ks' @ [k']) = Some c}"
      using kids na by simp
    show "\<And>ks' k' x. ks' @ [k'] \<in> S \<Longrightarrow> nodeAt b' (ks' @ [k']) = Some x \<Longrightarrow> carries (heap b' x) k'"
      using d(13) na car by simp
  qed
qed

text \<open>A write that leaves the registry, the child lists and the segments alone.\<close>

lemma frame_inv:
  assumes inv: "tree_inv S P b"
    and nx: "nextNode b' = nextNode b" and nd: "nodes b' = nodes b" and rt: "rootNode b' = rootNode b"
    and ch: "\<And>x. child (heap b' x) = child (heap b x)"
    and lb: "\<And>x. fieldName (heap b' x) = fieldName (heap b x)" "\<And>x. index (heap b' x) = index (heap b x)"
  shows "tree_inv S P b'"
proof -
  have na: "nodeAt b' = nodeAt b" by (rule ext) (simp add: nodeAt_def nd)
  have car: "\<And>x j. carries (heap b' x) j = carries (heap b x) j"
    by (simp add: carries_def lb)
  show ?thesis
    using inv unfolding tree_inv_def na nx rt ch car by simp
qed

lemma prefixes_registered:
  assumes inv: "tree_inv S P b"
  shows "ks \<in> S \<Longrightarrow> (\<forall>p\<in>P. \<not> prefix p ks) \<Longrightarrow> prefix js ks \<Longrightarrow> js \<in> S"
proof (induction ks rule: rev_induct)
  case Nil
  then show ?case using tree_invD(1) [OF inv] by simp
next
  case (snoc k ks)
  show ?case
  proof (cases "js = ks @ [k]")
    case True
    then show ?thesis using snoc.prems(1) by simp
  next
    case False
    with snoc.prems(3) have pj: "prefix js ks" by (simp add: prefix_snoc)
    have "ks @ [k] \<notin> P" using snoc.prems(2) by auto
    then have kS: "ks \<in> S" using tree_invD(5) [OF inv snoc.prems(1)] by simp
    have "\<forall>p\<in>P. \<not> prefix p ks"
      using snoc.prems(2) by (meson prefix_order.order_trans prefix_snoc)
    with snoc.IH [OF kS _ pj] show ?thesis by simp
  qed
qed

lemma newNode_unfold:
  "newNode (Path q k) b =
     (case ensureParentNode (Path q k)
             (b\<lparr>nextNode := Suc (nextNode b),
                heap := (heap b)(nextNode b :=
                     (case k of IndexKey i \<Rightarrow> emptyNode\<lparr>index := Some i\<rparr>
                              | FieldKey s \<Rightarrow> emptyNode\<lparr>fieldName := Some s\<rparr>)),
                nodes := (nodes b)(joinKeys (responsePathAsArray q @ [k]) \<mapsto> nextNode b)\<rparr>) of
        (Inl e, b4) \<Rightarrow> (Inl e, b4)
      | (Inr parentNode, b4) \<Rightarrow>
          (Inr (nextNode b), updateNode parentNode (\<lambda>n. n\<lparr>child := child n @ [nextNode b]\<rparr>) b4))"
  by (cases k) (simp_all add: new_Node_def updateNode_def Let_def del: ensureParentNode.simps)

lemma ensureParentNode_unfold:
  "ensureParentNode (Path q k) b =
     (case nodeAt b (responsePathAsArray q) of
        Some parentNode \<Rightarrow> (Inr parentNode, b)
      | None \<Rightarrow> newNode q b)"
  by (simp add: nodeAt_def responsePathAsString_joinKeys)

lemma prefix_longer: "\<not> prefix (ks @ [k]) ks"
  by (auto dest: prefix_length_le)

lemma newNode_step:
  fixes q k b
  defines "ks0 \<equiv> responsePathAsArray q @ [k]"
  defines "b3 \<equiv> b\<lparr>nextNode := Suc (nextNode b),
                heap := (heap b)(nextNode b :=
                     (case k of IndexKey i \<Rightarrow> emptyNode\<lparr>index := Some i\<rparr>
                              | FieldKey s \<Rightarrow> emptyNode\<lparr>fieldName := Some s\<rparr>)),
                nodes := (nodes b)(joinKeys (responsePathAsArray q @ [k]) \<mapsto> nextNode b)\<rparr>"
  assumes inv: "tree_inv S P b"
    and wf: "list_all wf_key ks0" and new: "ks0 \<notin> S"
    and orph: "\<forall>p\<in>P. \<not> prefix p ks0"
    and IH: "responsePathAsArray q \<notin> S \<Longrightarrow>
       \<exists>b4. newNode q b3 = (Inr (nextNode b3), b4)
          \<and> tree_inv (insert ks0 S \<union> {js. prefix js (responsePathAsArray q)}) (insert ks0 P) b4
          \<and> nodeAt b4 (responsePathAsArray q) = Some (nextNode b3)
          \<and> (\<forall>js\<in>insert ks0 S. nodeAt b4 js = nodeAt b3 js)
          \<and> startHrTime b4 = startHrTime b3 \<and> stopped b4 = stopped b3"
  shows "\<exists>b'. newNode (Path q k) b = (Inr (nextNode b), b')
          \<and> tree_inv (S \<union> {js. prefix js ks0}) P b'
          \<and> nodeAt b' ks0 = Some (nextNode b)
          \<and> (\<forall>js\<in>S. nodeAt b' js = nodeAt b js)
          \<and> startHrTime b' = startHrTime b \<and> stopped b' = stopped b"
proof -
  let ?N = "nextNode b"
  let ?aq = "responsePathAsArray q"
  note d = tree_invD [OF inv]
  have k0P: "ks0 \<notin> P" using new d(2) by blast
  have R: "tree_inv (insert ks0 S) (insert ks0 P) b3"
    unfolding ks0_def
  proof (rule register_inv [OF inv])
    show "list_all wf_key (?aq @ [k])" using wf by (simp add: ks0_def)
    show "?aq @ [k] \<notin> S" using new by (simp add: ks0_def)
    show "nextNode b3 = Suc ?N" by (simp add: b3_def)
    show "nodes b3 = (nodes b)(joinKeys (?aq @ [k]) \<mapsto> ?N)" by (simp add: b3_def)
    show "\<And>a. a \<noteq> ?N \<Longrightarrow> heap b3 a = heap b a" by (simp add: b3_def)
    show "child (heap b3 ?N) = []" by (cases k) (simp_all add: b3_def emptyNode_def)
    show "carries (heap b3 ?N) k" by (cases k) (simp_all add: b3_def emptyNode_def carries_def)
    show "rootNode b3 = rootNode b" by (simp add: b3_def)
  qed
  note r = tree_invD [OF R]
  have n0: "nodeAt b3 ks0 = Some ?N" by (simp add: nodeAt_def b3_def ks0_def)
  have old: "\<And>js. js \<in> S \<Longrightarrow> nodeAt b3 js = nodeAt b js"
  proof -
    fix js assume js: "js \<in> S"
    then have "js \<noteq> ks0" using new by auto
    then have "joinKeys js \<noteq> joinKeys ks0" using joinKeys_inj [OF d(4) [OF js] wf] by auto
    then show "nodeAt b3 js = nodeAt b js" by (simp add: nodeAt_def b3_def ks0_def)
  qed
  have wfq: "list_all wf_key ?aq" using wf by (simp add: ks0_def)
  have sets: "\<And>X. ?aq \<in> X \<Longrightarrow> (\<And>js. prefix js ?aq \<Longrightarrow> js \<in> X) \<Longrightarrow>
      insert ks0 X = X \<union> {js. prefix js ks0}"
    by (auto simp: ks0_def prefix_snoc)
  have un: "newNode (Path q k) b =
     (case ensureParentNode (Path q k) b3 of
        (Inl e, b4) \<Rightarrow> (Inl e, b4)
      | (Inr parentNode, b4) \<Rightarrow>
          (Inr ?N, updateNode parentNode (\<lambda>n. n\<lparr>child := child n @ [?N]\<rparr>) b4))"
    unfolding b3_def by (rule newNode_unfold)
  show ?thesis
  proof (cases "?aq \<in> S")
    case True
    obtain pa where pa: "nodeAt b ?aq = Some pa" using d(7) [OF True] by blast
    then have pa3: "nodeAt b3 ?aq = Some pa" using old [OF True] by simp
    let ?b5 = "updateNode pa (\<lambda>n. n\<lparr>child := child n @ [?N]\<rparr>) b3"
    have res: "newNode (Path q k) b = (Inr ?N, ?b5)"
      unfolding un by (simp add: ensureParentNode_unfold pa3 del: ensureParentNode.simps)
    have L: "tree_inv (insert ks0 S) (insert ks0 P - {ks0}) ?b5"
      unfolding ks0_def
    proof (rule link_inv [OF R [unfolded ks0_def]])
      show "?aq @ [k] \<in> insert (?aq @ [k]) P" by simp
      show "?aq \<in> insert (?aq @ [k]) S" using True by simp
      show "nodeAt b3 ?aq = Some pa" by (rule pa3)
      show "nodeAt b3 (?aq @ [k]) = Some ?N" using n0 by (simp add: ks0_def)
    qed (simp_all add: updateNode_def)
    have pre: "\<And>js. prefix js ?aq \<Longrightarrow> js \<in> S"
    proof -
      fix js assume pj: "prefix js ?aq"
      have "\<forall>p\<in>P. \<not> prefix p ?aq"
        using orph by (auto simp: ks0_def prefix_snoc)
      from prefixes_registered [OF inv True this pj] show "js \<in> S" .
    qed
    have S_eq: "insert ks0 S = S \<union> {js. prefix js ks0}" using sets [OF True pre] .
    have P_eq: "insert ks0 P - {ks0} = P" using k0P by auto
    have inv5: "tree_inv (S \<union> {js. prefix js ks0}) P ?b5" using L S_eq P_eq by simp
    have n5: "nodeAt ?b5 ks0 = Some ?N" using n0 by (simp add: nodeAt_def updateNode_def)
    have o5: "\<forall>js\<in>S. nodeAt ?b5 js = nodeAt b js"
      using old by (simp add: nodeAt_def updateNode_def)
    have f5: "startHrTime ?b5 = startHrTime b" "stopped ?b5 = stopped b"
      by (simp_all add: updateNode_def b3_def)
    show ?thesis using res inv5 n5 o5 f5 by (intro exI [of _ ?b5] conjI) assumption+
  next
    case False
    have ne: "?aq \<noteq> ks0" by (simp add: ks0_def)
    with False have "?aq \<notin> insert ks0 S" by simp
    then have none: "nodeAt b3 ?aq = None" using r(6) [OF wfq] by simp
    from IH [OF False] obtain b4 where
      run: "newNode q b3 = (Inr (nextNode b3), b4)"
      and inv4: "tree_inv (insert ks0 S \<union> {js. prefix js ?aq}) (insert ks0 P) b4"
      and nq: "nodeAt b4 ?aq = Some (nextNode b3)"
      and o4: "\<forall>js\<in>insert ks0 S. nodeAt b4 js = nodeAt b3 js"
      and f4: "startHrTime b4 = startHrTime b3" "stopped b4 = stopped b3"
      by blast
    let ?pa = "nextNode b3"
    let ?b5 = "updateNode ?pa (\<lambda>n. n\<lparr>child := child n @ [?N]\<rparr>) b4"
    have res: "newNode (Path q k) b = (Inr ?N, ?b5)"
      unfolding un by (simp add: ensureParentNode_unfold none run del: ensureParentNode.simps)
    have n4: "nodeAt b4 ks0 = Some ?N" using o4 n0 by simp
    let ?S4 = "insert ks0 S \<union> {js. prefix js ?aq}"
    have L: "tree_inv ?S4 (insert ks0 P - {ks0}) ?b5"
      unfolding ks0_def
    proof (rule link_inv [OF inv4 [unfolded ks0_def]])
      show "?aq @ [k] \<in> insert (?aq @ [k]) P" by simp
      show "?aq \<in> insert (?aq @ [k]) S \<union> {js. prefix js ?aq}" by simp
      show "nodeAt b4 ?aq = Some ?pa" by (rule nq)
      show "nodeAt b4 (?aq @ [k]) = Some ?N" using n4 by (simp add: ks0_def)
    qed (simp_all add: updateNode_def)
    have S_eq: "?S4 = S \<union> {js. prefix js ks0}"
      by (auto simp: ks0_def prefix_snoc)
    have P_eq: "insert ks0 P - {ks0} = P" using k0P by auto
    have inv5: "tree_inv (S \<union> {js. prefix js ks0}) P ?b5" using L S_eq P_eq by simp
    have n5: "nodeAt ?b5 ks0 = Some ?N" using n4 by (simp add: nodeAt_def updateNode_def)
    have o5: "\<forall>js\<in>S. nodeAt ?b5 js = nodeAt b js"
      using old o4 by (simp add: nodeAt_def updateNode_def)
    have f5: "startHrTime ?b5 = startHrTime b" "stopped ?b5 = stopped b"
      using f4 by (simp_all add: updateNode_def b3_def)
    show ?thesis using res inv5 n5 o5 f5 by (intro exI [of _ ?b5] conjI) assumption+
  qed
qed

lemma newNode_inv:
  "tree_inv S P b \<Longrightarrow> list_all wf_key (responsePathAsArray q @ [k]) \<Longrightarrow>
   responsePathAsArray q @ [k] \<notin> S \<Longrightarrow> \<forall>p\<in>P. \<not> prefix p (responsePathAsArray q @ [k]) \<Longrightarrow>
   \<exists>b'. newNode (Path q k) b = (Inr (nextNode b), b')
      \<and> tree_inv (S \<union> {js. prefix js (responsePathAsArray q @ [k])}) P b'
      \<and> nodeAt b' (responsePathAsArray q @ [k]) = Some (nextNode b)
      \<and> (\<forall>js\<in>S. nodeAt b' js = nodeAt b js)
      \<and> startHrTime b' = startHrTime b \<and> stopped b' = stopped b"
proof (induction q arbitrary: k b S P)
  case NoPath
  have "[] \<in> S" using tree_invD(1) [OF NoPath.prems(1)] .
  then have v: "responsePathAsArray NoPath \<notin> S \<Longrightarrow> False" by simp
  show ?case
    by (rule newNode_step [OF NoPath.prems]) (use v in blast)
next
  case (Path q' k')
  let ?aq = "responsePathAsArray (Path q' k')"
  let ?ks0 = "?aq @ [k]"
  show ?case
  proof (rule newNode_step [OF Path.prems])
    let ?b3 = "b\<lparr>nextNode := Suc (nextNode b),
                heap := (heap b)(nextNode b :=
                     (case k of IndexKey i \<Rightarrow> emptyNode\<lparr>index := Some i\<rparr>
                              | FieldKey s \<Rightarrow> emptyNode\<lparr>fieldName := Some s\<rparr>)),
                nodes := (nodes b)(joinKeys (?aq @ [k]) \<mapsto> nextNode b)\<rparr>"
    assume nin: "?aq \<notin> S"
    have R: "tree_inv (insert ?ks0 S) (insert ?ks0 P) ?b3"
    proof (rule register_inv [OF Path.prems(1)])
      show "list_all wf_key ?ks0" by (rule Path.prems(2))
      show "?ks0 \<notin> S" by (rule Path.prems(3))
      show "child (heap ?b3 (nextNode b)) = []" by (cases k) (simp_all add: emptyNode_def)
      show "carries (heap ?b3 (nextNode b)) k" by (cases k) (simp_all add: emptyNode_def carries_def)
    qed simp_all
    have wfq: "list_all wf_key (responsePathAsArray q' @ [k'])" using Path.prems(2) by simp
    have new: "responsePathAsArray q' @ [k'] \<notin> insert ?ks0 S" using nin by simp
    have orph: "\<forall>p\<in>insert ?ks0 P. \<not> prefix p (responsePathAsArray q' @ [k'])"
    proof
      fix p assume "p \<in> insert ?ks0 P"
      then consider "p = ?ks0" | "p \<in> P" by auto
      then show "\<not> prefix p (responsePathAsArray q' @ [k'])"
      proof cases
        case 1
        then show ?thesis using prefix_longer [of ?aq k] by simp
      next
        case 2
        with Path.prems(4) have "\<not> prefix p ?ks0" by blast
        then show ?thesis by (auto simp: prefix_snoc)
      qed
    qed
    from Path.IH [OF R wfq new orph]
    show "\<exists>b4. newNode (Path q' k') ?b3 = (Inr (nextNode ?b3), b4)
          \<and> tree_inv (insert ?ks0 S \<union> {js. prefix js ?aq}) (insert ?ks0 P) b4
          \<and> nodeAt b4 ?aq = Some (nextNode ?b3)
          \<and> (\<forall>js\<in>insert ?ks0 S. nodeAt b4 js = nodeAt ?b3 js)
          \<and> startHrTime b4 = startHrTime ?b3 \<and> stopped b4 = stopped ?b3"
      by simp
  qed
qed

lemma joinKeys_nonempty:
  assumes "list_all wf_key ks" and "ks \<noteq> []"
  shows "joinKeys ks \<noteq> []"
proof -
  have "list_all wf_key []" by simp
  from joinKeys_inj [OF assms(1) this] assms(2) show ?thesis by (auto simp: joinKeys_Nil)
qed

lemma tree_inv_started:
  "tree_inv {[]} {} (snd (startTiming now new_EngineReportingTreeBuilder))"
proof -
  let ?b = "snd (startTiming now new_EngineReportingTreeBuilder)"
  have f: "nodes ?b = [[] \<mapsto> 0]" "nextNode ?b = 1" "rootNode ?b = 0" "heap ?b = (\<lambda>_. emptyNode)"
    by (simp_all add: startTiming_def new_EngineReportingTreeBuilder_def rootResponsePath_def)
  have n0: "nodeAt ?b [] = Some 0" by (simp add: nodeAt_def f joinKeys_Nil)
  show ?thesis
  proof (rule tree_invI)
    show "\<And>ks. list_all wf_key ks \<Longrightarrow> ks \<notin> {[]} \<Longrightarrow> nodeAt ?b ks = None"
      using joinKeys_nonempty by (simp add: nodeAt_def f)
    show "\<And>ks. ks \<in> {[]} \<Longrightarrow> \<exists>a<nextNode ?b. nodeAt ?b ks = Some a"
      using n0 f(2) by simp
    show "\<And>a. a < nextNode ?b \<Longrightarrow> \<exists>ks\<in>{[]}. nodeAt ?b ks = Some a"
      using n0 f(2) by simp
    show "nodeAt ?b [] = Some (rootNode ?b)" using n0 f(3) by simp
    show "\<And>ks a. ks \<in> {[]} \<Longrightarrow> nodeAt ?b ks = Some a \<Longrightarrow> distinct (child (heap ?b a))"
      by (simp add: f emptyNode_def)
    show "\<And>ks a. ks \<in> {[]} \<Longrightarrow> nodeAt ?b ks = Some a \<Longrightarrow>
           set (child (heap ?b a)) = {c. \<exists>k. ks @ [k] \<in> {[]} \<and> ks @ [k] \<notin> {} \<and> nodeAt ?b (ks @ [k]) = Some c}"
      by (simp add: f emptyNode_def)
  qed simp_all
qed

lemma started_fields:
  "startHrTime (snd (startTiming now new_EngineReportingTreeBuilder)) \<noteq> None"
  "\<not> stopped (snd (startTiming now new_EngineReportingTreeBuilder))"
  by (simp_all add: startTiming_def new_EngineReportingTreeBuilder_def)

lemma willResolveField_inv:
  assumes inv: "tree_inv S {} b"
    and st: "startHrTime b \<noteq> None" "\<not> stopped b"
    and ne: "responsePathAsArray (info_path info) \<noteq> []"
    and wf: "list_all wf_key (responsePathAsArray (info_path info))"
    and new: "responsePathAsArray (info_path info) \<notin> S"
  shows "\<exists>b'. willResolveField info hr b = (Inr (nextNode b), b')
           \<and> tree_inv (S \<union> {js. prefix js (responsePathAsArray (info_path info))}) {} b'
           \<and> startHrTime b' \<noteq> None \<and> \<not> stopped b'"
proof -
  obtain q k where p: "info_path info = Path q k"
    using ne by (cases "info_path info") simp_all
  have wf': "list_all wf_key (responsePathAsArray q @ [k])" using wf p by simp
  have new': "responsePathAsArray q @ [k] \<notin> S" using new p by simp
  from newNode_inv [OF inv wf' new'] obtain b1 where
    run: "newNode (Path q k) b = (Inr (nextNode b), b1)"
    and inv1: "tree_inv (S \<union> {js. prefix js (responsePathAsArray q @ [k])}) {} b1"
    and f1: "startHrTime b1 = startHrTime b" "stopped b1 = stopped b"
    by blast
  let ?b' = "updateNode (nextNode b) (\<lambda>n. n\<lparr>type := info_returnType info,
                                       parentType := info_parentType info,
                                       startTime := durationHrTimeToNanos hr\<rparr>) b1"
  have res: "willResolveField info hr b = (Inr (nextNode b), ?b')"
    using st run p by (simp add: willResolveField_def del: newNode.simps)
  have inv': "tree_inv (S \<union> {js. prefix js (responsePathAsArray q @ [k])}) {} ?b'"
    by (rule frame_inv [OF inv1]) (simp_all add: updateNode_def)
  have "startHrTime ?b' \<noteq> None" "\<not> stopped ?b'"
    using st f1 by (simp_all add: updateNode_def)
  then show ?thesis using res inv' p by auto
qed

lemma resolveFields_inv:
  "tree_inv (insert [] {js. \<exists>q\<in>set seen. prefix js q}) {} b \<Longrightarrow>
   startHrTime b \<noteq> None \<Longrightarrow> \<not> stopped b \<Longrightarrow>
   fresh_starts seen (map (\<lambda>e. responsePathAsArray (info_path (fst e))) es) \<Longrightarrow>
   \<exists>b'. resolveFields es b = (Inr (), b')
      \<and> tree_inv (insert [] {js. \<exists>q\<in>set seen \<union> (\<lambda>e. responsePathAsArray (info_path (fst e))) ` set es.
                                  prefix js q}) {} b'"
proof (induction es arbitrary: seen b)
  case Nil
  then show ?case by simp
next
  case (Cons e es)
  obtain info hr where e: "e = (info, hr)" by (cases e)
  let ?p = "responsePathAsArray (info_path info)"
  let ?S = "insert [] {js. \<exists>q\<in>set seen. prefix js q}"
  from Cons.prems(4) e have ne: "?p \<noteq> []" and wf: "list_all wf_key ?p"
    and fr: "\<forall>q\<in>set seen. \<not> prefix ?p q"
    and rest: "fresh_starts (?p # seen) (map (\<lambda>e. responsePathAsArray (info_path (fst e))) es)"
    by simp_all
  have new: "?p \<notin> ?S" using ne fr by auto
  from willResolveField_inv [OF Cons.prems(1,2,3) ne wf new, of hr] obtain b1 where
    run: "willResolveField info hr b = (Inr (nextNode b), b1)"
    and inv1: "tree_inv (?S \<union> {js. prefix js ?p}) {} b1"
    and st1: "startHrTime b1 \<noteq> None" "\<not> stopped b1"
    by blast
  have S1: "?S \<union> {js. prefix js ?p} = insert [] {js. \<exists>q\<in>set (?p # seen). prefix js q}"
    by auto
  from Cons.IH [OF inv1 [unfolded S1] st1 rest] obtain b' where
    run': "resolveFields es b1 = (Inr (), b')"
    and inv': "tree_inv (insert [] {js. \<exists>q\<in>set (?p # seen) \<union> (\<lambda>e. responsePathAsArray (info_path (fst e))) ` set es.
                                  prefix js q}) {} b'"
    by blast
  have S2: "set (?p # seen) \<union> (\<lambda>e. responsePathAsArray (info_path (fst e))) ` set es
      = set seen \<union> (\<lambda>e. responsePathAsArray (info_path (fst e))) ` set (e # es)"
    using e by auto
  have "resolveFields (e # es) b = (Inr (), b')" using e run run' by simp
  then show ?case using inv' unfolding S2 by blast
qed

lemma tree_inv_builds_tree: "tree_inv T {} b \<Longrightarrow> builds_tree T b"
  unfolding tree_inv_def builds_tree_def by simp


section \<open>A path started twice, and a child started before its parent\<close>

lemma builderAA_fields:
  "willResolveField infoA (0, 6) builderA = (Inr 2, builderAA)"
  "nextNode builderAA = 3"
  "nodes builderAA = [[] \<mapsto> 0, ''a'' \<mapsto> 2]"
  "child (heap builderAA 0) = [1, 2]"
  "fieldName (heap builderAA (Suc 0)) = Some ''a''"
  "fieldName (heap builderAA 2) = Some ''a''"
  "rootNode builderAA = 0"
  by (simp_all add: builderAA_def willResolveField_def builderA_fields infoA_def new_Node_def
        updateNode_def joinKeys_def durationHrTimeToNanos_def emptyNode_def)

lemma builderBA_fields:
  "resolveFields [(infoAB, (0, 5)), (infoA, (0, 6))] startedBuilder = (Inr (), builderBA)"
  "nextNode builderBA = 4"
  "nodes builderBA = [[] \<mapsto> 0, ''a.b'' \<mapsto> 1, ''a'' \<mapsto> 3]"
  "child (heap builderBA 0) = [2, 3]"
  "child (heap builderBA 2) = [1]"
  "child (heap builderBA 3) = []"
  "fieldName (heap builderBA 2) = Some ''a''"
  "fieldName (heap builderBA 3) = Some ''a''"
  "rootNode builderBA = 0"
  by (simp_all add: builderBA_def willResolveField_def startedBuilder_fields infoA_def infoAB_def
        new_Node_def updateNode_def joinKeys_def durationHrTimeToNanos_def emptyNode_def
        numeral_3_eq_3)


lemma joinKeys_examples:
  "joinKeys [FieldKey ''a''] = ''a''" "joinKeys [FieldKey ''a'', FieldKey ''b''] = ''a.b''"
  by (simp_all add: joinKeys_def)


lemma join_snoc: "xs \<noteq> [] \<Longrightarrow> join sep (xs @ [y]) = join sep xs @ sep @ y"
  by (induction xs) (simp_all add: join_Cons)

lemma keyString_nonempty': "k \<noteq> FieldKey [] \<Longrightarrow> keyString k \<noteq> []"
  by (cases k) (simp_all add: string_of_nat_nonempty)

lemma joinKeys_snoc_neq:
  assumes "k \<noteq> FieldKey []"
  shows "joinKeys (ks @ [k]) \<noteq> joinKeys ks"
proof (cases "ks = []")
  case True
  then show ?thesis using keyString_nonempty' [OF assms] by (simp add: joinKeys_def)
next
  case False
  then have "joinKeys (ks @ [k]) = joinKeys ks @ ''.'' @ keyString k"
    using join_snoc [of "map keyString ks" "''.''" "keyString k"] by (simp add: joinKeys_def)
  then have "length (joinKeys (ks @ [k])) > length (joinKeys ks)" by simp
  then show ?thesis by auto
qed


section \<open>The lifecycle of the builder\<close>

text \<open>Claim C3, as the code has it. Outside the window between \<open>startTiming\<close> and
  \<open>stopTiming\<close> each of \<open>willResolveField\<close>, \<open>addError\<close> and \<open>stopTiming\<close> throws an
  \<open>Error\<close> and leaves the builder as it was, and so does \<open>startTiming\<close> on a builder that
  was started or stopped. The end handle of a field has no such guard: whatever the state
  of the builder, it sets the end time of its node and does not throw.\<close>

theorem lifecycle_guards:
  "(startHrTime b = None \<or> stopped b \<longrightarrow>
      (\<exists>m. willResolveField info hr b = (Inl (Error m), b)) \<and>
      (\<exists>m. addError path err b = (Inl (Error m), b)) \<and>
      (\<exists>m. stopTiming hr b = (Inl (Error m), b)))
   \<and> (startHrTime b \<noteq> None \<or> stopped b \<longrightarrow>
      (\<exists>m. startTiming now b = (Inl (Error m), b)))
   \<and> endTime (heap (endHandler node hr b) node) = durationHrTimeToNanos hr"
  by (auto simp: willResolveField_def addError_def stopTiming_def startTiming_def
        endHandler_def updateNode_def)

theorem lifecycle_guards_witness:
  "stopped stoppedBuilder
   \<and> (\<exists>m. willResolveField infoAB (0, 9) stoppedBuilder = (Inl (Error m), stoppedBuilder))
   \<and> (\<exists>m. addError None exampleError stoppedBuilder = (Inl (Error m), stoppedBuilder))
   \<and> (\<exists>m. stopTiming (0, 9) stoppedBuilder = (Inl (Error m), stoppedBuilder))
   \<and> (\<exists>m. startTiming (7, 7) stoppedBuilder = (Inl (Error m), stoppedBuilder))
   \<and> startHrTime new_EngineReportingTreeBuilder = None
   \<and> (\<exists>m. willResolveField infoA (0, 9) new_EngineReportingTreeBuilder
             = (Inl (Error m), new_EngineReportingTreeBuilder))"
proof -
  have s: "stopped stoppedBuilder" by (simp add: stoppedBuilder_eq)
  have n: "startHrTime new_EngineReportingTreeBuilder = None"
    by (simp add: new_EngineReportingTreeBuilder_def)
  show ?thesis
    using s n
      lifecycle_guards [of stoppedBuilder infoAB "(0, 9)" None exampleError "(7, 7)" 1]
      lifecycle_guards [of new_EngineReportingTreeBuilder infoA "(0, 9)" None exampleError "(7, 7)" 1]
    by simp
qed

text \<open>Claim C3 as stated fails for the end handle: invoked after \<open>stopTiming\<close> it does not
  throw and it writes the end time of its node.\<close>

theorem endHandler_after_stop_counterexample:
  "willResolveField infoA (0, 5) startedBuilder = (Inr 1, builderA)
   \<and> stopTiming (0, 8) builderA = (Inr (8, 0), stoppedBuilder)
   \<and> stopped stoppedBuilder
   \<and> endTime (heap stoppedBuilder 1) = 0
   \<and> endTime (heap (endHandler 1 (0, 9) stoppedBuilder) 1) = 9
   \<and> endHandler 1 (0, 9) stoppedBuilder \<noteq> stoppedBuilder"
proof -
  have a: "stopTiming (0, 8) builderA = (Inr (8, 0), stoppedBuilder)"
    by (simp add: stopTiming_def builderA_fields stoppedBuilder_eq durationHrTimeToNanos_def)
  have b: "endTime (heap stoppedBuilder 1) = 0"
    by (simp add: stoppedBuilder_eq builderA_fields emptyNode_def)
  have c: "endTime (heap (endHandler 1 (0, 9) stoppedBuilder) 1) = 9"
    by (simp add: endHandler_def updateNode_def durationHrTimeToNanos_def)
  from b c have d: "endHandler 1 (0, 9) stoppedBuilder \<noteq> stoppedBuilder" by auto
  show ?thesis using willResolveField_infoA a b c d by (simp add: stoppedBuilder_eq)
qed

text \<open>Claim C4. Once \<open>stopTiming\<close> has returned, a second call throws
  \<open>Error('stopTiming called twice!')\<close> and returns the builder, heap included, as the first
  call left it; so the root node handed out by the first call is as it was.\<close>

theorem stopTiming_twice:
  assumes "stopTiming hr b = (Inr r, b')"
  shows "stopTiming hr' b' = (Inl (Error ''stopTiming called twice!''), b')"
  using assms by (auto simp: stopTiming_def split: if_splits)

theorem stopTiming_twice_witness:
  "stopTiming (0, 8) builderA = (Inr (8, 0), stoppedBuilder)
   \<and> stopTiming (0, 9) stoppedBuilder = (Inl (Error ''stopTiming called twice!''), stoppedBuilder)"
proof -
  have h: "stopTiming (0, 8) builderA = (Inr (8, 0), stoppedBuilder)"
    by (simp add: stopTiming_def builderA_fields stoppedBuilder_eq durationHrTimeToNanos_def)
  show ?thesis using h stopTiming_twice [OF h, of "(0, 9)"] by simp
qed

section \<open>Where an error is attached\<close>

text \<open>Claim C5. In the started window \<open>addError\<close> pushes the error onto the error list of
  the node registered under the joined path when there is one, and onto that of the root
  node when the path is \<open>undefined\<close>, when no node is registered under it, and when it is
  empty (the root node being registered under the empty string); no other node and no
  other field of the builder changes.\<close>

theorem addError_attaches:
  assumes "startHrTime b \<noteq> None" and "\<not> stopped b"
  shows "(path = Some ks \<and> nodes b (joinKeys ks) = Some n \<longrightarrow>
            (\<exists>b'. addError path err b = (Inr (), b') \<and> errorAppended b n err b'))
       \<and> (path = None \<or> (path = Some ks \<and> nodes b (joinKeys ks) = None) \<longrightarrow>
            (\<exists>b'. addError path err b = (Inr (), b') \<and> errorAppended b (rootNode b) err b'))
       \<and> (path = Some [] \<and> nodes b rootResponsePath = Some (rootNode b) \<longrightarrow>
            (\<exists>b'. addError path err b = (Inr (), b') \<and> errorAppended b (rootNode b) err b'))"
  using assms
  by (auto simp: addError_def errorAppended_def updateNode_def joinKeys_Nil rootResponsePath_def
        Let_def)

theorem addError_attaches_witness:
  "startHrTime builderA \<noteq> None \<and> \<not> stopped builderA
   \<and> nodes builderA (joinKeys [FieldKey ''a'']) = Some 1
   \<and> (\<exists>b'. addError (Some [FieldKey ''a'']) exampleError builderA = (Inr (), b')
          \<and> error (heap b' 1) = [exampleError] \<and> error (heap b' 0) = [])
   \<and> nodes builderA (joinKeys [FieldKey ''x'']) = None
   \<and> (\<exists>b'. addError (Some [FieldKey ''x'']) exampleError builderA = (Inr (), b')
          \<and> error (heap b' 0) = [exampleError] \<and> error (heap b' 1) = [])
   \<and> nodes builderA rootResponsePath = Some (rootNode builderA)
   \<and> (\<exists>b'. addError (Some []) exampleError builderA = (Inr (), b')
          \<and> error (heap b' 0) = [exampleError] \<and> error (heap b' 1) = [])"
proof -
  have h1: "startHrTime builderA \<noteq> None" and h2: "\<not> stopped builderA"
    by (simp_all add: builderA_fields)
  have a: "nodes builderA (joinKeys [FieldKey ''a'']) = Some 1"
    and x: "nodes builderA (joinKeys [FieldKey ''x'']) = None"
    and r: "nodes builderA rootResponsePath = Some (rootNode builderA)"
    by (simp_all add: builderA_fields joinKeys_def rootResponsePath_def)
  have e: "error (heap builderA 0) = []" "error (heap builderA 1) = []" "rootNode builderA = 0"
    by (simp_all add: builderA_fields emptyNode_def)
  have w1: "\<exists>b'. addError (Some [FieldKey ''a'']) exampleError builderA = (Inr (), b')
          \<and> error (heap b' 1) = [exampleError] \<and> error (heap b' 0) = []"
    using addError_attaches [OF h1 h2, of "Some [FieldKey ''a'']" "[FieldKey ''a'']" 1 exampleError] a e
    by (auto simp: errorAppended_def)
  have w2: "\<exists>b'. addError (Some [FieldKey ''x'']) exampleError builderA = (Inr (), b')
          \<and> error (heap b' 0) = [exampleError] \<and> error (heap b' 1) = []"
    using addError_attaches [OF h1 h2, of "Some [FieldKey ''x'']" "[FieldKey ''x'']" 1 exampleError] x e
    by (auto simp: errorAppended_def)
  have w3: "\<exists>b'. addError (Some []) exampleError builderA = (Inr (), b')
          \<and> error (heap b' 0) = [exampleError] \<and> error (heap b' 1) = []"
    using addError_attaches [OF h1 h2, of "Some []" "[]" 0 exampleError] r e
    by (auto simp: errorAppended_def)
  show ?thesis using h1 h2 a x r w1 w2 w3 by (intro conjI) assumption+
qed

section \<open>Redaction at request start\<close>






section \<open>The flags of the trace\<close>

text \<open>Claim C9 does not hold of the code. The two persisted-query flags are set inside the
  block guarded by \<open>privateHeaders !== true\<close>, so with \<open>privateHeaders: true\<close> a request
  whose metrics say \<open>persistedQueryHit\<close> ends with a trace whose flag is \<open>false\<close>; with any
  other setting of \<open>privateHeaders\<close> the same request ends with the flag \<open>true\<close>.\<close>

theorem persistedQueryHit_lost_when_headers_private:
  "metrics_persistedQueryHit (arg_metrics exampleArgs) = Some True
   \<and> privateHeaders redactAllOptions = Flag True
   \<and> map_sum id (persistedQueryHit \<circ> add_trace)
       (fst (requestDidEnd 2500 (0, 9) exampleMetrics None None ''abc123''
          (snd (requestDidStart redactAllOptions Map.empty None 1500 (1, 2) exampleArgs
             (new_EngineReportingExtension :: unit EngineReportingExtension))))) = Inr False
   \<and> map_sum id (persistedQueryHit \<circ> add_trace)
       (fst (requestDidEnd 2500 (0, 9) exampleMetrics None None ''abc123''
          (snd (requestDidStart exampleOptions Map.empty None 1500 (1, 2) exampleArgs
             (new_EngineReportingExtension :: unit EngineReportingExtension))))) = Inr True"
proof -
  let ?new = "new_EngineReportingExtension :: unit EngineReportingExtension"
  let ?s1 = "snd (requestDidStart redactAllOptions Map.empty None 1500 (1, 2) exampleArgs ?new)"
  let ?s2 = "snd (requestDidStart exampleOptions Map.empty None 1500 (1, 2) exampleArgs ?new)"
  have m: "metrics_persistedQueryHit (arg_metrics exampleArgs) = Some True"
    by (simp add: exampleArgs_def exampleMetrics_def)
  have p: "privateHeaders redactAllOptions = Flag True" by (simp add: redactAllOptions_def)
  have q: "privateHeaders exampleOptions \<noteq> Flag True" by (simp add: exampleOptions_def)
  have b1: "startHrTime (treeBuilder ?s1) \<noteq> None" "\<not> stopped (treeBuilder ?s1)"
    and b2: "startHrTime (treeBuilder ?s2) \<noteq> None" "\<not> stopped (treeBuilder ?s2)"
    by (simp_all add: requestDidStart_fresh(6) new_extension_fresh)
  have f1: "persistedQueryHit (trace ?s1) = False"
    by (simp add: requestDidStart_fresh(4) new_extension_fresh p)
  have f2: "persistedQueryHit (trace ?s2) = True"
    by (simp add: requestDidStart_fresh(4) new_extension_fresh q m truthy_def)
  have e1: "map_sum id (persistedQueryHit \<circ> add_trace)
       (fst (requestDidEnd 2500 (0, 9) exampleMetrics None None ''abc123'' ?s1)) = Inr False"
    using requestDidEnd_started [OF b1, of 2500 "(0, 9)" exampleMetrics None None "''abc123''"] f1
    by auto
  have e2: "map_sum id (persistedQueryHit \<circ> add_trace)
       (fst (requestDidEnd 2500 (0, 9) exampleMetrics None None ''abc123'' ?s2)) = Inr True"
    using requestDidEnd_started [OF b2, of 2500 "(0, 9)" exampleMetrics None None "''abc123''"] f2
    by auto
  show ?thesis using m p e1 e2 by (intro conjI) assumption+
qed

section \<open>The error policy\<close>

text \<open>Claim C10. With \<open>maskErrorDetails\<close> set, and the builder in its started window,
  \<open>didEncounterErrors\<close> succeeds whatever \<open>rewriteError\<close> is set to (a function that would
  throw included), so that function is not consulted; for each error it pushes onto the
  error list of the root node one record with the message \<open><masked>\<close>, no location and the
  JSON text of \<open>{ message: '<masked>' }\<close>, wherever the error's own path points; no other
  node changes.\<close>

theorem masked_errors_go_to_root:
  assumes "maskErrorDetails opts"
    and "startHrTime (treeBuilder ext) \<noteq> None" and "\<not> stopped (treeBuilder ext)"
  shows "\<exists>ext'. (\<forall>f. didEncounterErrors new_GraphQLError enumerable (opts\<lparr>rewriteError := f\<rparr>) errs ext
                      = (Inr (), ext'))
           \<and> error (heap (treeBuilder ext') (rootNode (treeBuilder ext))) =
               error (heap (treeBuilder ext) (rootNode (treeBuilder ext)))
                 @ replicate (length errs) maskedTraceError
           \<and> (\<forall>a. a \<noteq> rootNode (treeBuilder ext) \<longrightarrow>
                  heap (treeBuilder ext') a = heap (treeBuilder ext) a)
           \<and> message maskedTraceError = ''<masked>'' \<and> location maskedTraceError = []"
proof -
  let ?ext' = "ext\<lparr>treeBuilder :=
              updateNode (rootNode (treeBuilder ext))
                (\<lambda>n. n\<lparr>error := error n @ replicate (length errs) maskedTraceError\<rparr>)
                (treeBuilder ext)\<rparr>"
  have run: "\<forall>f. didEncounterErrors new_GraphQLError enumerable (opts\<lparr>rewriteError := f\<rparr>) errs ext
                      = (Inr (), ?ext')"
  proof
    fix f
    have mk: "maskErrorDetails (opts\<lparr>rewriteError := f\<rparr>)" using assms(1) by simp
    show "didEncounterErrors new_GraphQLError enumerable (opts\<lparr>rewriteError := f\<rparr>) errs ext
                      = (Inr (), ?ext')"
      by (rule masked_run [OF mk assms(2,3)])
  qed
  have e: "error (heap (treeBuilder ?ext') (rootNode (treeBuilder ext))) =
               error (heap (treeBuilder ext) (rootNode (treeBuilder ext)))
                 @ replicate (length errs) maskedTraceError"
    by (simp add: updateNode_def)
  have o: "\<forall>a. a \<noteq> rootNode (treeBuilder ext) \<longrightarrow>
                  heap (treeBuilder ?ext') a = heap (treeBuilder ext) a"
    by (simp add: updateNode_def)
  have m: "message maskedTraceError = ''<masked>''" "location maskedTraceError = []"
    by (simp_all add: maskedTraceError_def)
  show ?thesis using run e o m by (intro exI [of _ ?ext'] conjI) assumption+
qed

theorem masked_errors_go_to_root_witness:
  "maskErrorDetails maskOptions
   \<and> startHrTime (treeBuilder extensionA) \<noteq> None \<and> \<not> stopped (treeBuilder extensionA)
   \<and> err_path exampleGraphQLError = Some [FieldKey ''a'']
   \<and> nodes (treeBuilder extensionA) (joinKeys [FieldKey ''a'']) = Some 1
   \<and> (\<exists>ext'. didEncounterErrors exampleConstructor exampleEnumerable maskOptions
                 [exampleGraphQLError] extensionA = (Inr (), ext')
          \<and> error (heap (treeBuilder ext') 0) = [maskedTraceError]
          \<and> error (heap (treeBuilder ext') 1) = [])"
proof -
  have h1: "maskErrorDetails maskOptions" by (simp add: maskOptions_def)
  have h2: "startHrTime (treeBuilder extensionA) \<noteq> None"
    and h3: "\<not> stopped (treeBuilder extensionA)"
    by (simp_all add: extensionA_def builderA_fields)
  have p: "err_path exampleGraphQLError = Some [FieldKey ''a'']"
    by (simp add: exampleGraphQLError_def exampleConstructor_def)
  have n: "nodes (treeBuilder extensionA) (joinKeys [FieldKey ''a'']) = Some 1"
    by (simp add: extensionA_def builderA_fields joinKeys_def)
  have r: "rootNode (treeBuilder extensionA) = 0"
    "error (heap (treeBuilder extensionA) 0) = []"
    "error (heap (treeBuilder extensionA) (Suc 0)) = []"
    by (simp_all add: extensionA_def builderA_fields emptyNode_def)
  have o: "maskOptions\<lparr>rewriteError := Some failingRewrite\<rparr> = maskOptions"
    by (simp add: maskOptions_def)
  from masked_errors_go_to_root [OF h1 h2 h3, of exampleConstructor exampleEnumerable "[exampleGraphQLError]"]
  obtain ext' where
    a: "\<forall>f. didEncounterErrors exampleConstructor exampleEnumerable (maskOptions\<lparr>rewriteError := f\<rparr>)
              [exampleGraphQLError] extensionA = (Inr (), ext')"
    and b: "error (heap (treeBuilder ext') (rootNode (treeBuilder extensionA))) =
               error (heap (treeBuilder extensionA) (rootNode (treeBuilder extensionA)))
                 @ replicate (length [exampleGraphQLError]) maskedTraceError"
    and c: "\<forall>a. a \<noteq> rootNode (treeBuilder extensionA) \<longrightarrow>
                  heap (treeBuilder ext') a = heap (treeBuilder extensionA) a"
    by blast
  have a': "didEncounterErrors exampleConstructor exampleEnumerable maskOptions
                 [exampleGraphQLError] extensionA = (Inr (), ext')"
    using a [rule_format, of "Some failingRewrite"] o by simp
  have b': "error (heap (treeBuilder ext') 0) = [maskedTraceError]"
    using b r by simp
  have c': "error (heap (treeBuilder ext') 1) = []"
    using c [rule_format, of 1] r by simp
  show ?thesis using h1 h2 h3 p n a' b' c' by (intro conjI exI) assumption+
qed



section \<open>The tree that field starts build\<close>

text \<open>Claim C2, as the code has it. Let the query engine start fields with well-formed keys
  on a freshly started builder, in an order in which no path is started after that same
  path or a path below it was started. Then every call succeeds, and the nodes of the
  builder are, one for one, the started paths and their ancestors: the empty path has the
  root node, the children of a path's node are exactly the nodes of the paths one key
  longer, each once, and each node carries the last key of its path, as \<open>fieldName\<close> when
  it is a string and as \<open>index\<close> when it is a number.\<close>

theorem fields_build_tree:
  assumes "fresh_starts [] (map (\<lambda>e. responsePathAsArray (info_path (fst e))) es)"
  shows "\<exists>b'. resolveFields es (snd (startTiming now new_EngineReportingTreeBuilder)) = (Inr (), b')
           \<and> builds_tree (insert [] {js. \<exists>e\<in>set es. prefix js (responsePathAsArray (info_path (fst e)))}) b'"
proof -
  let ?b = "snd (startTiming now new_EngineReportingTreeBuilder)"
  have i0: "tree_inv (insert [] {js. \<exists>q\<in>set []. prefix js q}) {} ?b"
    using tree_inv_started [of now] by simp
  from resolveFields_inv [OF i0 started_fields assms] obtain b' where
    run: "resolveFields es ?b = (Inr (), b')"
    and inv: "tree_inv (insert [] {js. \<exists>q\<in>set [] \<union> (\<lambda>e. responsePathAsArray (info_path (fst e))) ` set es.
                                  prefix js q}) {} b'"
    by blast
  have "{js. \<exists>q\<in>set [] \<union> (\<lambda>e. responsePathAsArray (info_path (fst e))) ` set es. prefix js q}
      = {js. \<exists>e\<in>set es. prefix js (responsePathAsArray (info_path (fst e)))}"
    by auto
  with inv have "tree_inv (insert [] {js. \<exists>e\<in>set es. prefix js (responsePathAsArray (info_path (fst e)))}) {} b'"
    by simp
  from tree_inv_builds_tree [OF this] run show ?thesis by blast
qed


theorem fields_build_tree_witness:
  "fresh_starts [] (map (\<lambda>e. responsePathAsArray (info_path (fst e))) exampleStarts)
   \<and> (\<exists>b'. resolveFields exampleStarts (snd (startTiming (1, 2) new_EngineReportingTreeBuilder))
              = (Inr (), b')
         \<and> builds_tree (insert [] {js. \<exists>e\<in>set exampleStarts.
                                    prefix js (responsePathAsArray (info_path (fst e)))}) b'
         \<and> (\<exists>c i d. nodeAt b' [FieldKey ''c''] = Some c
                \<and> nodeAt b' [FieldKey ''c'', IndexKey 0] = Some i
                \<and> nodeAt b' [FieldKey ''c'', IndexKey 0, FieldKey ''d''] = Some d
                \<and> i \<in> set (child (heap b' c)) \<and> d \<in> set (child (heap b' i))
                \<and> index (heap b' i) = Some 0 \<and> fieldName (heap b' d) = Some ''d''))"
proof -
  define es where "es = exampleStarts"
  define T where "T = insert [] {js. \<exists>e\<in>set es. prefix js (responsePathAsArray (info_path (fst e)))}"
  have h: "fresh_starts [] (map (\<lambda>e. responsePathAsArray (info_path (fst e))) es)"
    by (simp add: es_def exampleStarts_def infoA_def infoAB_def infoC0D_def)
  from fields_build_tree [OF h, of "(1, 2)"] obtain b' where
    run: "resolveFields es (snd (startTiming (1, 2) new_EngineReportingTreeBuilder)) = (Inr (), b')"
    and t: "builds_tree T b'"
    unfolding T_def by blast
  have m1: "[FieldKey ''c''] \<in> T"
    and m2: "[FieldKey ''c''] @ [IndexKey 0] \<in> T"
    and m3: "[FieldKey ''c'', IndexKey 0] @ [FieldKey ''d''] \<in> T"
    by (simp_all add: T_def es_def exampleStarts_def infoC0D_def)
  have m2': "[FieldKey ''c'', IndexKey 0] \<in> T" using m2 by simp
  from t have ex: "\<And>ks. ks \<in> T \<Longrightarrow> \<exists>a. nodeAt b' ks = Some a"
    unfolding builds_tree_def by blast
  from t have kids: "\<And>ks a. ks \<in> T \<Longrightarrow> nodeAt b' ks = Some a \<Longrightarrow>
        set (child (heap b' a)) = {x. \<exists>k. ks @ [k] \<in> T \<and> nodeAt b' (ks @ [k]) = Some x}"
    unfolding builds_tree_def by blast
  from t have lab: "\<And>ks k a. ks @ [k] \<in> T \<Longrightarrow> nodeAt b' (ks @ [k]) = Some a \<Longrightarrow> carries (heap b' a) k"
    unfolding builds_tree_def by blast
  obtain c where c: "nodeAt b' [FieldKey ''c''] = Some c" using ex [OF m1] by blast
  obtain i where i: "nodeAt b' ([FieldKey ''c''] @ [IndexKey 0]) = Some i" using ex [OF m2] by blast
  obtain d where d: "nodeAt b' ([FieldKey ''c'', IndexKey 0] @ [FieldKey ''d'']) = Some d"
    using ex [OF m3] by blast
  have ic: "i \<in> set (child (heap b' c))"
    unfolding kids [OF m1 c] using m2 i by blast
  have di: "d \<in> set (child (heap b' i))"
    unfolding kids [OF m2' i [simplified]] using m3 d by blast
  have li: "index (heap b' i) = Some 0"
    using lab [OF m2 i] by (simp add: carries_def)
  have ld: "fieldName (heap b' d) = Some ''d''"
    using lab [OF m3 d] by (simp add: carries_def)
  have inner: "\<exists>c i d. nodeAt b' [FieldKey ''c''] = Some c
                \<and> nodeAt b' [FieldKey ''c'', IndexKey 0] = Some i
                \<and> nodeAt b' [FieldKey ''c'', IndexKey 0, FieldKey ''d''] = Some d
                \<and> i \<in> set (child (heap b' c)) \<and> d \<in> set (child (heap b' i))
                \<and> index (heap b' i) = Some 0 \<and> fieldName (heap b' d) = Some ''d''"
    using c i [simplified] d [simplified] ic di li ld by blast
  have "\<exists>b'. resolveFields es (snd (startTiming (1, 2) new_EngineReportingTreeBuilder)) = (Inr (), b')
         \<and> builds_tree T b'
         \<and> (\<exists>c i d. nodeAt b' [FieldKey ''c''] = Some c
                \<and> nodeAt b' [FieldKey ''c'', IndexKey 0] = Some i
                \<and> nodeAt b' [FieldKey ''c'', IndexKey 0, FieldKey ''d''] = Some d
                \<and> i \<in> set (child (heap b' c)) \<and> d \<in> set (child (heap b' i))
                \<and> index (heap b' i) = Some 0 \<and> fieldName (heap b' d) = Some ''d'')"
    by (rule exI [of _ b'], intro conjI) (rule run t inner)+
  with h show ?thesis unfolding T_def es_def by (rule conjI)
qed

text \<open>Claim C2 as stated fails for an arrival order in which a field is started after a
  field below it: the start of \<open>a.b\<close> creates the node of \<open>a\<close> on demand, and the later start
  of \<open>a\<close> creates a second one, so the root has two children \<open>a\<close>, one with the child \<open>b\<close> and
  one without.\<close>

theorem child_before_parent_counterexample:
  "fresh_starts [] [responsePathAsArray (info_path infoAB)]
   \<and> list_all wf_key (responsePathAsArray (info_path infoA))
   \<and> responsePathAsArray (info_path infoA) \<noteq> responsePathAsArray (info_path infoAB)
   \<and> resolveFields [(infoAB, (0, 5)), (infoA, (0, 6))]
        (snd (startTiming (1, 2) new_EngineReportingTreeBuilder)) = (Inr (), builderBA)
   \<and> child (heap builderBA (rootNode builderBA)) = [2, 3]
   \<and> fieldName (heap builderBA 2) = Some ''a'' \<and> fieldName (heap builderBA 3) = Some ''a''
   \<and> child (heap builderBA 2) = [1] \<and> child (heap builderBA 3) = []
   \<and> \<not> builds_tree {[], [FieldKey ''a''], [FieldKey ''a'', FieldKey ''b'']} builderBA"
proof -
  have a: "fresh_starts [] [responsePathAsArray (info_path infoAB)]"
    "list_all wf_key (responsePathAsArray (info_path infoA))"
    "responsePathAsArray (info_path infoA) \<noteq> responsePathAsArray (info_path infoAB)"
    by (simp_all add: infoA_def infoAB_def)
  have r: "rootNode builderBA = 0" by (rule builderBA_fields(9))
  have run: "resolveFields [(infoAB, (0, 5)), (infoA, (0, 6))]
        (snd (startTiming (1, 2) new_EngineReportingTreeBuilder)) = (Inr (), builderBA)"
    using builderBA_fields(1) by (simp add: startedBuilder_def)
  have n: "\<not> builds_tree {[], [FieldKey ''a''], [FieldKey ''a'', FieldKey ''b'']} builderBA"
  proof
    define T where "T = {[], [FieldKey ''a''], [FieldKey ''a'', FieldKey ''b'']}"
    assume "builds_tree {[], [FieldKey ''a''], [FieldKey ''a'', FieldKey ''b'']} builderBA"
    then have bt: "builds_tree T builderBA" by (simp only: T_def)
    have "\<forall>a<nextNode builderBA. \<exists>ks\<in>T. nodeAt builderBA ks = Some a"
      by (rule conjunct1 [OF conjunct2 [OF bt [unfolded builds_tree_def]]])
    moreover have "(2::nat) < nextNode builderBA" by (simp add: builderBA_fields(2))
    ultimately obtain ks where ks: "ks \<in> T" and nk: "nodeAt builderBA ks = Some 2" by blast
    have v: "nodeAt builderBA [] = Some 0" "nodeAt builderBA [FieldKey ''a''] = Some 3"
      "nodeAt builderBA [FieldKey ''a'', FieldKey ''b''] = Some 1"
      by (simp_all add: nodeAt_def joinKeys_Nil joinKeys_examples builderBA_fields(3))
    from ks have "ks = [] \<or> ks = [FieldKey ''a''] \<or> ks = [FieldKey ''a'', FieldKey ''b'']"
      by (simp add: T_def)
    with nk v show False by auto
  qed
  have c0: "child (heap builderBA (rootNode builderBA)) = [2, 3]"
    by (simp add: r builderBA_fields)
  show ?thesis
    using a run c0 builderBA_fields(5-8) n
    by (intro conjI) assumption+
qed


section \<open>A path started twice\<close>

text \<open>Claim C1, as the code has it. \<open>willResolveField\<close> never looks its own path up. In the
  started window, for a path whose parent path has a node, every call creates a new node
  that carries the last key of the path, registers it under the path in place of whatever
  was registered there (the last creation wins), and pushes it onto the child list of the
  parent's node, which keeps every node pushed before; only for the ancestors of the path
  is an existing node reused.\<close>

theorem willResolveField_always_creates:
  assumes "startHrTime b \<noteq> None" and "\<not> stopped b"
    and "info_path info = Path q k" and "k \<noteq> FieldKey []"
    and "nodes b (responsePathAsString q) = Some parent" and "parent < nextNode b"
  shows "\<exists>b'. willResolveField info hr b = (Inr (nextNode b), b')
           \<and> nextNode b' = Suc (nextNode b)
           \<and> nodes b' = (nodes b)(responsePathAsString (info_path info) \<mapsto> nextNode b)
           \<and> child (heap b' parent) = child (heap b parent) @ [nextNode b]
           \<and> carries (heap b' (nextNode b)) k
           \<and> child (heap b' (nextNode b)) = []
           \<and> (\<forall>a. a \<noteq> parent \<and> a \<noteq> nextNode b \<longrightarrow> heap b' a = heap b a)"
proof -
  let ?N = "nextNode b"
  let ?aq = "responsePathAsArray q"
  let ?b3 = "b\<lparr>nextNode := Suc (nextNode b),
                heap := (heap b)(nextNode b :=
                     (case k of IndexKey i \<Rightarrow> emptyNode\<lparr>index := Some i\<rparr>
                              | FieldKey s \<Rightarrow> emptyNode\<lparr>fieldName := Some s\<rparr>)),
                nodes := (nodes b)(joinKeys (responsePathAsArray q @ [k]) \<mapsto> nextNode b)\<rparr>"
  let ?b5 = "updateNode parent (\<lambda>n. n\<lparr>child := child n @ [?N]\<rparr>) ?b3"
  let ?b' = "updateNode ?N (\<lambda>n. n\<lparr>type := info_returnType info,
                                       parentType := info_parentType info,
                                       startTime := durationHrTimeToNanos hr\<rparr>) ?b5"
  have pn: "parent \<noteq> ?N" using assms(6) by simp
  have ne: "joinKeys ?aq \<noteq> joinKeys (?aq @ [k])"
    using joinKeys_snoc_neq [OF assms(4), of ?aq] by simp
  have par: "nodeAt ?b3 ?aq = Some parent"
    using assms(5) ne by (simp add: nodeAt_def responsePathAsString_joinKeys)
  have nn: "newNode (Path q k) b = (Inr ?N, ?b5)"
    unfolding newNode_unfold
    by (simp add: ensureParentNode_unfold par del: ensureParentNode.simps)
  have res: "willResolveField info hr b = (Inr ?N, ?b')"
    using assms(1,2,3) nn by (simp add: willResolveField_def del: newNode.simps)
  have c1: "nextNode ?b' = Suc ?N" by (simp add: updateNode_def)
  have c2: "nodes ?b' = (nodes b)(responsePathAsString (info_path info) \<mapsto> ?N)"
    using assms(3) by (simp add: updateNode_def)
  have c3: "child (heap ?b' parent) = child (heap b parent) @ [?N]"
    using pn by (simp add: updateNode_def)
  have c4: "carries (heap ?b' ?N) k"
    using pn by (cases k) (simp_all add: updateNode_def carries_def emptyNode_def)
  have c5: "child (heap ?b' ?N) = []"
    using pn by (cases k) (simp_all add: updateNode_def emptyNode_def)
  have c6: "\<forall>a. a \<noteq> parent \<and> a \<noteq> ?N \<longrightarrow> heap ?b' a = heap b a"
    by (simp add: updateNode_def)
  show ?thesis using res c1 c2 c3 c4 c5 c6 by (intro exI [of _ ?b'] conjI) assumption+
qed

theorem willResolveField_always_creates_witness:
  "startHrTime builderA \<noteq> None \<and> \<not> stopped builderA
   \<and> info_path infoA = Path NoPath (FieldKey ''a'') \<and> FieldKey ''a'' \<noteq> FieldKey []
   \<and> nodes builderA (responsePathAsString NoPath) = Some 0 \<and> 0 < nextNode builderA
   \<and> nodes builderA (responsePathAsString (info_path infoA)) = Some 1
   \<and> (\<exists>b'. willResolveField infoA (0, 6) builderA = (Inr 2, b')
         \<and> nodes b' (responsePathAsString (info_path infoA)) = Some 2
         \<and> child (heap b' 0) = [1, 2])"
proof -
  have h1: "startHrTime builderA \<noteq> None" and h2: "\<not> stopped builderA"
    by (simp_all add: builderA_fields)
  have h3: "info_path infoA = Path NoPath (FieldKey ''a'')" by (simp add: infoA_def)
  have h4: "FieldKey ''a'' \<noteq> FieldKey []" by simp
  have h5: "nodes builderA (responsePathAsString NoPath) = Some 0"
    by (simp add: builderA_fields)
  have h6: "0 < nextNode builderA" by (simp add: builderA_fields)
  have s: "responsePathAsString (info_path infoA) = ''a''" by (simp add: infoA_def joinKeys_def)
  have old: "nodes builderA (responsePathAsString (info_path infoA)) = Some 1"
    by (simp add: s builderA_fields)
  have n: "nextNode builderA = 2" "child (heap builderA 0) = [1]"
    by (simp_all add: builderA_fields)
  from willResolveField_always_creates [OF h1 h2 h3 h4 h5 h6, of "(0, 6)"] obtain b' where
    r: "willResolveField infoA (0, 6) builderA = (Inr (nextNode builderA), b')"
    and m: "nodes b' = (nodes builderA)(responsePathAsString (info_path infoA) \<mapsto> nextNode builderA)"
    and c: "child (heap b' 0) = child (heap builderA 0) @ [nextNode builderA]"
    by blast
  have r': "willResolveField infoA (0, 6) builderA = (Inr 2, b')" using r n by simp
  have m': "nodes b' (responsePathAsString (info_path infoA)) = Some 2" using m n by simp
  have c': "child (heap b' 0) = [1, 2]" using c n by simp
  have ex: "\<exists>b'. willResolveField infoA (0, 6) builderA = (Inr 2, b')
         \<and> nodes b' (responsePathAsString (info_path infoA)) = Some 2
         \<and> child (heap b' 0) = [1, 2]"
    by (rule exI [of _ b'], intro conjI) (rule r' m' c')+
  show ?thesis using h1 h2 h3 h4 h5 h6 old ex by (intro conjI) assumption+
qed

text \<open>Claim C1 as stated fails when a path is started twice: the second start creates a
  second node and the root has both as children.\<close>

theorem duplicate_start_counterexample:
  "willResolveField infoA (0, 5) startedBuilder = (Inr 1, builderA)
   \<and> nodes builderA (responsePathAsString (info_path infoA)) = Some 1
   \<and> willResolveField infoA (0, 6) builderA = (Inr 2, builderAA)
   \<and> nodes builderAA (responsePathAsString (info_path infoA)) = Some 2
   \<and> child (heap builderAA (rootNode builderAA)) = [1, 2]
   \<and> fieldName (heap builderAA 1) = Some ''a'' \<and> fieldName (heap builderAA 2) = Some ''a''"
proof -
  have s: "responsePathAsString (info_path infoA) = ''a''" by (simp add: infoA_def joinKeys_def)
  have r: "rootNode builderAA = 0" by (rule builderAA_fields(7))
  have n1: "nodes builderA (responsePathAsString (info_path infoA)) = Some 1"
    by (simp add: s builderA_fields)
  have n2: "nodes builderAA (responsePathAsString (info_path infoA)) = Some 2"
    by (simp add: s builderAA_fields)
  have c: "child (heap builderAA (rootNode builderAA)) = [1, 2]"
    by (simp add: r builderAA_fields)
  have f1: "fieldName (heap builderAA 1) = Some ''a''" by (simp add: builderAA_fields)
  show ?thesis
    using willResolveField_infoA n1 builderAA_fields(1) n2 c f1 builderAA_fields(6)
    by (intro conjI) assumption+
qed

end
